theory Spec2Isabelle
  imports Complex_Main "HOL-Library.Multiset"
begin

section \<open>Data model (include/cdbscan.h)\<close>

text \<open>
  Coordinates are C doubles; they are modelled as reals, so rounding, NaN and infinities are
  outside the model. A pointer that may be NULL is an option (\<open>None\<close> is NULL). An
  array argument is a list; the separate count argument of the C functions is kept, and
  indices are natural numbers. Labels, counts and return codes are C ints, modelled as
  unbounded integers (no label or counter exceeds the number of points).
\<close>

definition CDBSCAN_UNCLASSIFIED :: int where
  "CDBSCAN_UNCLASSIFIED = -1"

definition CDBSCAN_NOISE :: int where
  "CDBSCAN_NOISE = -2"

datatype cdbscan_dist_type =
  CDBSCAN_DIST_EUCLIDEAN
| CDBSCAN_DIST_MANHATTAN
| CDBSCAN_DIST_MINKOWSKI
| CDBSCAN_DIST_COSINE
| CDBSCAN_DIST_CUSTOM

type_synonym vec = "real list option"

text \<open>
  A custom distance function receives both vectors and the dimension; the opaque
  parameter pointer \<open>custom_dist_params\<close> is part of the closure.
\<close>

type_synonym cdbscan_dist_func = "vec \<Rightarrow> vec \<Rightarrow> int \<Rightarrow> real"

record cdbscan_point =
  coords :: vec
  dimensions :: int
  cluster_id :: int
  index :: int

record cdbscan_params =
  eps :: real
  min_pts :: int
  dist_type :: cdbscan_dist_type
  minkowski_p :: real
  custom_dist :: "cdbscan_dist_func option"
  use_kdtree :: int

section \<open>Distance metrics\<close>

text \<open>
  The C functions compute in doubles and round after every operation; the functions below
  compute over the reals. The two differ where the code rounds: a squared difference below
  the smallest positive double underflows to 0 in C, so that the C distance can be smaller
  than a coordinate difference, which a distance over the reals never is; and the cosine
  distance of a non-zero vector to itself is exactly 0 here and within a rounding error of
  0, possibly negative, in C. The statements on labels, seeds and frames further down do
  not rest on the value of a distance: they hold for whatever lists the region queries
  return.
\<close>

definition cdbscan_euclidean_distance :: "vec \<Rightarrow> vec \<Rightarrow> int \<Rightarrow> real" where
  "cdbscan_euclidean_distance a b dims =
     (case (a, b) of
        (Some xs, Some ys) \<Rightarrow>
          if dims \<le> 0 then -1
          else sqrt (fold (\<lambda>i sum. sum + (xs ! i - ys ! i) * (xs ! i - ys ! i))
                       [0..<nat dims] 0)
      | _ \<Rightarrow> -1)"

definition cdbscan_manhattan_distance :: "vec \<Rightarrow> vec \<Rightarrow> int \<Rightarrow> real" where
  "cdbscan_manhattan_distance a b dims =
     (case (a, b) of
        (Some xs, Some ys) \<Rightarrow>
          if dims \<le> 0 then -1
          else fold (\<lambda>i sum. sum + \<bar>xs ! i - ys ! i\<bar>) [0..<nat dims] 0
      | _ \<Rightarrow> -1)"

definition cdbscan_minkowski_distance :: "vec \<Rightarrow> vec \<Rightarrow> int \<Rightarrow> real \<Rightarrow> real" where
  "cdbscan_minkowski_distance a b dims p =
     (case (a, b) of
        (Some xs, Some ys) \<Rightarrow>
          if dims \<le> 0 \<or> p \<le> 0 then -1
          else (fold (\<lambda>i sum. sum + \<bar>xs ! i - ys ! i\<bar> powr p) [0..<nat dims] 0) powr (1 / p)
      | _ \<Rightarrow> -1)"

definition cdbscan_cosine_distance :: "vec \<Rightarrow> vec \<Rightarrow> int \<Rightarrow> real" where
  "cdbscan_cosine_distance a b dims =
     (case (a, b) of
        (Some xs, Some ys) \<Rightarrow>
          if dims \<le> 0 then -1
          else
            (let (dot, norm_a, norm_b) =
                   fold (\<lambda>i (dot, norm_a, norm_b).
                           (dot + xs ! i * ys ! i, norm_a + xs ! i * xs ! i,
                            norm_b + ys ! i * ys ! i))
                     [0..<nat dims] (0, 0, 0)
             in if norm_a = 0 \<or> norm_b = 0 then 2
                else 1 - dot / (sqrt norm_a * sqrt norm_b))
      | _ \<Rightarrow> -1)"

definition calculate_distance :: "vec \<Rightarrow> vec \<Rightarrow> int \<Rightarrow> cdbscan_params \<Rightarrow> real" where
  "calculate_distance a b dims params =
     (case dist_type params of
        CDBSCAN_DIST_EUCLIDEAN \<Rightarrow> cdbscan_euclidean_distance a b dims
      | CDBSCAN_DIST_MANHATTAN \<Rightarrow> cdbscan_manhattan_distance a b dims
      | CDBSCAN_DIST_MINKOWSKI \<Rightarrow> cdbscan_minkowski_distance a b dims (minkowski_p params)
      | CDBSCAN_DIST_COSINE \<Rightarrow> cdbscan_cosine_distance a b dims
      | CDBSCAN_DIST_CUSTOM \<Rightarrow>
          (case custom_dist params of Some f \<Rightarrow> f a b dims | None \<Rightarrow> -1))"

section \<open>Brute-force region queries\<close>

text \<open>
  A query writes the neighbour indices into a caller-provided buffer and returns their
  number. The model returns the list of indices written, in the order of writing; its
  length is the C return value. The buffer and parameter pointers are taken to be
  non-null, as they are in every call made by \<open>cdbscan_cluster\<close>.
\<close>

definition cdbscan_region_query ::
  "cdbscan_point list option \<Rightarrow> int \<Rightarrow> int \<Rightarrow> real \<Rightarrow> nat list" where
  "cdbscan_region_query points num_points point_idx e =
     (case points of
        None \<Rightarrow> []
      | Some pts \<Rightarrow>
          if point_idx < 0 \<or> point_idx \<ge> num_points then []
          else
            (let query_point = pts ! nat point_idx
             in filter (\<lambda>i. let dist = cdbscan_euclidean_distance (coords query_point)
                                         (coords (pts ! i)) (dimensions query_point)
                             in dist \<ge> 0 \<and> dist \<le> e)
                  [0..<nat num_points]))"

definition cdbscan_region_query_custom ::
  "cdbscan_point list option \<Rightarrow> int \<Rightarrow> int \<Rightarrow> cdbscan_params \<Rightarrow> nat list" where
  "cdbscan_region_query_custom points num_points point_idx params =
     (case points of
        None \<Rightarrow> []
      | Some pts \<Rightarrow>
          if point_idx < 0 \<or> point_idx \<ge> num_points then []
          else
            (let query_point = pts ! nat point_idx
             in filter (\<lambda>i. let dist = calculate_distance (coords query_point)
                                         (coords (pts ! i)) (dimensions query_point) params
                             in dist \<ge> 0 \<and> dist \<le> eps params)
                  [0..<nat num_points]))"

section \<open>Allocation\<close>

text \<open>
  The outcomes of \<open>malloc\<close> and \<open>calloc\<close> are an explicit input of every function that
  allocates: the list scripts the successive requests of one call (\<open>True\<close>: served,
  \<open>False\<close>: NULL is returned); once the list is exhausted every request is served.
\<close>

fun alloc :: "bool list \<Rightarrow> bool \<times> bool list" where
  "alloc [] = (True, [])"
| "alloc (ok # heap) = (ok, heap)"

section \<open>KD-tree\<close>

text \<open>
  A node pointer is a value of \<open>kdtree_node\<close>, with \<open>Null\<close> for NULL. The field
  \<open>points\<close> of \<open>kdtree_t\<close> aliases the caller's point array, which the clustering
  loop relabels while the tree is alive; the model passes the current array to each
  query instead of storing a copy.
\<close>

datatype kdtree_node =
  Null
| Node nat kdtree_node kdtree_node nat

record kdtree_t =
  root :: kdtree_node
  tree_num_points :: int
  tree_dimensions :: int

text \<open>\<open>points[p].coords[d]\<close>\<close>

definition coord :: "cdbscan_point list \<Rightarrow> nat \<Rightarrow> nat \<Rightarrow> real" where
  "coord points p d = the (coords (points ! p)) ! d"

definition swap_entries :: "nat list \<Rightarrow> nat \<Rightarrow> nat \<Rightarrow> nat list" where
  "swap_entries indices i j = indices[i := indices ! j, j := indices ! i]"

text \<open>The body of the loop over \<open>i\<close> in \<open>partition\<close>, on the array and \<open>store_idx\<close>.\<close>

definition partition_step ::
  "cdbscan_point list \<Rightarrow> nat \<Rightarrow> real \<Rightarrow> nat \<Rightarrow> nat list \<times> nat \<Rightarrow> nat list \<times> nat" where
  "partition_step points d pivot_val i st =
     (case st of (indices, store_idx) \<Rightarrow>
        if coord points (indices ! i) d < pivot_val
        then (swap_entries indices store_idx i, store_idx + 1)
        else (indices, store_idx))"

definition partition_kd ::
  "nat list \<Rightarrow> cdbscan_point list \<Rightarrow> nat \<Rightarrow> nat \<Rightarrow> nat \<Rightarrow> nat list \<times> nat" where
  "partition_kd indices points left right d =
     (let pivot_idx = (left + right) div 2;
          pivot_point = indices ! pivot_idx;
          pivot_val = coord points pivot_point d;
          indices1 = swap_entries indices pivot_idx right;
          (indices2, store_idx) =
             fold (partition_step points d pivot_val) [left..<right] (indices1, left)
      in (swap_entries indices2 store_idx right, store_idx))"

lemma swap_entries_nth:
  "i < length xs \<Longrightarrow> j < length xs \<Longrightarrow>
   swap_entries xs i j ! k = (if k = j then xs ! i else if k = i then xs ! j else xs ! k)"
  by (simp add: swap_entries_def nth_list_update)

lemma swap_entries_length [simp]: "length (swap_entries xs i j) = length xs"
  by (simp add: swap_entries_def)

lemma swap_entries_mset:
  "i < length xs \<Longrightarrow> j < length xs \<Longrightarrow> mset (swap_entries xs i j) = mset xs"
  unfolding swap_entries_def by (rule mset_swap)

text \<open>
  The state of the loop in \<open>partition\<close> after the positions \<open>left..<k\<close>: a permutation
  of the array that moved entries of the window only, with the entries below the pivot
  value in front of \<open>store_idx\<close>.
\<close>

definition partition_inv ::
  "cdbscan_point list \<Rightarrow> nat \<Rightarrow> real \<Rightarrow> nat list \<Rightarrow> nat \<Rightarrow> nat \<Rightarrow> nat list \<times> nat \<Rightarrow> bool" where
  "partition_inv points d pv xs left k st \<longleftrightarrow>
     (case st of (ind, s) \<Rightarrow>
        length ind = length xs \<and> mset ind = mset xs \<and> left \<le> s \<and> s \<le> k
        \<and> (\<forall>j. left \<le> j \<and> j < s \<longrightarrow> coord points (ind ! j) d < pv)
        \<and> (\<forall>j. s \<le> j \<and> j < k \<longrightarrow> pv \<le> coord points (ind ! j) d)
        \<and> (\<forall>j. j < left \<or> k \<le> j \<longrightarrow> ind ! j = xs ! j)
        \<and> (\<forall>j. left \<le> j \<and> j < k \<longrightarrow> (\<exists>m. left \<le> m \<and> m < k \<and> ind ! j = xs ! m)))"

lemma partition_step_inv:
  assumes inv: "partition_inv points d pv xs left k st" and k: "left \<le> k" "k < length xs"
  shows "partition_inv points d pv xs left (Suc k) (partition_step points d pv k st)"
proof -
  obtain ind s where st: "st = (ind, s)" by (cases st)
  from inv have inv':
    "length ind = length xs \<and> mset ind = mset xs \<and> left \<le> s \<and> s \<le> k
        \<and> (\<forall>j. left \<le> j \<and> j < s \<longrightarrow> coord points (ind ! j) d < pv)
        \<and> (\<forall>j. s \<le> j \<and> j < k \<longrightarrow> pv \<le> coord points (ind ! j) d)
        \<and> (\<forall>j. j < left \<or> k \<le> j \<longrightarrow> ind ! j = xs ! j)
        \<and> (\<forall>j. left \<le> j \<and> j < k \<longrightarrow> (\<exists>m. left \<le> m \<and> m < k \<and> ind ! j = xs ! m))"
    by (simp add: partition_inv_def st)
  then have a: "length ind = length xs" "mset ind = mset xs" "left \<le> s" "s \<le> k"
    by blast+
  from inv' have lo: "\<And>j. left \<le> j \<Longrightarrow> j < s \<Longrightarrow> coord points (ind ! j) d < pv"
    and hi: "\<And>j. s \<le> j \<Longrightarrow> j < k \<Longrightarrow> pv \<le> coord points (ind ! j) d"
    and un: "\<And>j. j < left \<or> k \<le> j \<Longrightarrow> ind ! j = xs ! j"
    and win: "\<And>j. left \<le> j \<Longrightarrow> j < k \<Longrightarrow> \<exists>m. left \<le> m \<and> m < k \<and> ind ! j = xs ! m"
    by blast+
  have sl: "s < length ind" "k < length ind" using a k by simp_all
  have indk: "ind ! k = xs ! k" using un[of k] by simp
  show ?thesis
  proof (cases "coord points (ind ! k) d < pv")
    case False
    then have step: "partition_step points d pv k st = (ind, s)"
      by (simp add: partition_step_def st)
    have "\<And>j. s \<le> j \<Longrightarrow> j < Suc k \<Longrightarrow> pv \<le> coord points (ind ! j) d"
      using hi False by (metis less_Suc_eq not_less)
    moreover have "\<And>j. left \<le> j \<Longrightarrow> j < Suc k \<Longrightarrow> \<exists>m. left \<le> m \<and> m < Suc k \<and> ind ! j = xs ! m"
      using win indk k(1) by (metis less_Suc_eq)
    ultimately show ?thesis
      unfolding step partition_inv_def using a lo un by auto
  next
    case True
    let ?ind = "swap_entries ind s k"
    have step: "partition_step points d pv k st = (?ind, s + 1)"
      using True by (simp add: partition_step_def st)
    have nth: "\<And>j. ?ind ! j = (if j = k then ind ! s else if j = s then ind ! k else ind ! j)"
      using swap_entries_nth[OF sl] by simp
    have "mset ?ind = mset xs" using swap_entries_mset[OF sl] a by simp
    moreover have "\<And>j. left \<le> j \<Longrightarrow> j < s + 1 \<Longrightarrow> coord points (?ind ! j) d < pv"
      using lo True a(4) by (auto simp: nth less_Suc_eq)
    moreover have "\<And>j. s + 1 \<le> j \<Longrightarrow> j < Suc k \<Longrightarrow> pv \<le> coord points (?ind ! j) d"
      using hi a(4) by (auto simp: nth less_Suc_eq)
    moreover have "\<And>j. j < left \<or> Suc k \<le> j \<Longrightarrow> ?ind ! j = xs ! j"
      using un a(3,4) by (auto simp: nth)
    moreover have "\<And>j. left \<le> j \<Longrightarrow> j < Suc k \<Longrightarrow> \<exists>m. left \<le> m \<and> m < Suc k \<and> ?ind ! j = xs ! m"
    proof -
      fix j assume j: "left \<le> j" "j < Suc k"
      consider "j = k" "s < k" | "j = k" "s = k" | "j = s" "j \<noteq> k" | "j \<noteq> s" "j \<noteq> k"
        using a(4) by force
      then show "\<exists>m. left \<le> m \<and> m < Suc k \<and> ?ind ! j = xs ! m"
      proof cases
        case 1
        from win[OF a(3) 1(2)] obtain m where m: "left \<le> m" "m < k" "ind ! s = xs ! m" by blast
        have "?ind ! j = ind ! s" using nth[of j] 1 by simp
        with m show ?thesis by auto
      next
        case 2
        have "?ind ! j = xs ! k" using nth[of j] 2 indk by simp
        with k(1) show ?thesis by auto
      next
        case 3
        have "?ind ! j = xs ! k" using nth[of j] 3 indk by simp
        with k(1) show ?thesis by auto
      next
        case 4
        then have "j < k" using j by simp
        from win[OF j(1) this] obtain m where m: "left \<le> m" "m < k" "ind ! j = xs ! m" by blast
        have "?ind ! j = ind ! j" using nth[of j] 4 by simp
        with m show ?thesis by auto
      qed
    qed
    ultimately show ?thesis
      unfolding step partition_inv_def using a by simp
  qed
qed

lemma partition_loop_inv:
  assumes "left \<le> k" "k \<le> length xs"
  shows "partition_inv points d pv xs left k
           (fold (partition_step points d pv) [left..<k] (xs, left))"
  using assms
proof (induction k)
  case 0
  then show ?case by (simp add: partition_inv_def)
next
  case (Suc k)
  show ?case
  proof (cases "left \<le> k")
    case False
    with Suc.prems have "left = Suc k" by simp
    then show ?thesis by (simp add: partition_inv_def)
  next
    case True
    then have up: "[left..<Suc k] = [left..<k] @ [k]" by simp
    have "partition_inv points d pv xs left k
            (fold (partition_step points d pv) [left..<k] (xs, left))"
      using Suc.IH True Suc.prems by simp
    from partition_step_inv[OF this True] Suc.prems show ?thesis
      unfolding up by simp
  qed
qed

text \<open>What \<open>partition\<close> establishes on the window \<open>left..right\<close>.\<close>

definition partitioned ::
  "cdbscan_point list \<Rightarrow> nat \<Rightarrow> nat list \<Rightarrow> nat \<Rightarrow> nat \<Rightarrow> nat list \<Rightarrow> nat \<Rightarrow> bool" where
  "partitioned points d xs left right ys p \<longleftrightarrow>
     length ys = length xs \<and> mset ys = mset xs \<and> left \<le> p \<and> p \<le> right
     \<and> (\<forall>j. j < left \<or> right < j \<longrightarrow> ys ! j = xs ! j)
     \<and> (\<forall>j. left \<le> j \<and> j \<le> right \<longrightarrow> (\<exists>m. left \<le> m \<and> m \<le> right \<and> ys ! j = xs ! m))
     \<and> (\<forall>j. left \<le> j \<and> j < p \<longrightarrow> coord points (ys ! j) d < coord points (ys ! p) d)
     \<and> (\<forall>j. p < j \<and> j \<le> right \<longrightarrow> coord points (ys ! p) d \<le> coord points (ys ! j) d)"

lemma partition_kd_partitioned:
  assumes lr: "left \<le> right" "right < length xs"
    and res: "partition_kd xs points left right d = (ys, p)"
  shows "partitioned points d xs left right ys p"
proof -
  let ?m = "(left + right) div 2"
  let ?pv = "coord points (xs ! ?m) d"
  let ?x1 = "swap_entries xs ?m right"
  have m: "left \<le> ?m" "?m \<le> right" "?m < length xs" using lr by simp_all
  obtain ind s where f: "fold (partition_step points d ?pv) [left..<right] (?x1, left) = (ind, s)"
    by (cases "fold (partition_step points d ?pv) [left..<right] (?x1, left)")
  have pk: "partition_kd xs points left right d = (swap_entries ind s right, s)"
    using f by (simp add: partition_kd_def Let_def)
  have "(ys, p) = (swap_entries ind s right, s)"
    using res[symmetric] pk by (rule trans)
  then have ys: "ys = swap_entries ind s right" and p: "p = s"
    by blast+
  have "partition_inv points d ?pv ?x1 left right (ind, s)"
    using partition_loop_inv[of left right ?x1 points d ?pv] lr f by simp
  then have inv':
    "length ind = length ?x1 \<and> mset ind = mset ?x1 \<and> left \<le> s \<and> s \<le> right
        \<and> (\<forall>j. left \<le> j \<and> j < s \<longrightarrow> coord points (ind ! j) d < ?pv)
        \<and> (\<forall>j. s \<le> j \<and> j < right \<longrightarrow> ?pv \<le> coord points (ind ! j) d)
        \<and> (\<forall>j. j < left \<or> right \<le> j \<longrightarrow> ind ! j = ?x1 ! j)
        \<and> (\<forall>j. left \<le> j \<and> j < right \<longrightarrow> (\<exists>m. left \<le> m \<and> m < right \<and> ind ! j = ?x1 ! m))"
    by (simp add: partition_inv_def)
  then have a: "length ind = length xs" "mset ind = mset ?x1" "left \<le> s" "s \<le> right"
    by simp_all
  from inv' have lo: "\<And>j. left \<le> j \<Longrightarrow> j < s \<Longrightarrow> coord points (ind ! j) d < ?pv"
    and hi: "\<And>j. s \<le> j \<Longrightarrow> j < right \<Longrightarrow> ?pv \<le> coord points (ind ! j) d"
    and un: "\<And>j. j < left \<or> right \<le> j \<Longrightarrow> ind ! j = ?x1 ! j"
    and win: "\<And>j. left \<le> j \<Longrightarrow> j < right \<Longrightarrow> \<exists>m. left \<le> m \<and> m < right \<and> ind ! j = ?x1 ! m"
    by blast+
  have x1: "\<And>j. ?x1 ! j = (if j = right then xs ! ?m else if j = ?m then xs ! right else xs ! j)"
    using swap_entries_nth[OF m(3) lr(2)] by simp
  have sl: "s < length ind" "right < length ind" using a lr by simp_all
  have nth: "\<And>j. ys ! j = (if j = right then ind ! s else if j = s then ind ! right else ind ! j)"
    unfolding ys using swap_entries_nth[OF sl] by simp
  have indr: "ind ! right = xs ! ?m" using un[of right] x1[of right] by simp
  have ysp: "ys ! p = xs ! ?m" using nth[of s] indr p by simp
  have x1win: "\<And>j. left \<le> j \<Longrightarrow> j \<le> right \<Longrightarrow> \<exists>m. left \<le> m \<and> m \<le> right \<and> ?x1 ! j = xs ! m"
  proof -
    fix j assume "left \<le> j" "j \<le> right"
    then show "\<exists>m. left \<le> m \<and> m \<le> right \<and> ?x1 ! j = xs ! m"
      using m lr x1[of j] by (metis order_refl)
  qed
  have indwin: "\<And>j. left \<le> j \<Longrightarrow> j \<le> right \<Longrightarrow> \<exists>m. left \<le> m \<and> m \<le> right \<and> ind ! j = xs ! m"
  proof -
    fix j assume j: "left \<le> j" "j \<le> right"
    show "\<exists>m. left \<le> m \<and> m \<le> right \<and> ind ! j = xs ! m"
    proof (cases "j = right")
      case True
      then show ?thesis using indr m by blast
    next
      case False
      then have "j < right" using j by simp
      from win[OF j(1) this] obtain m' where "left \<le> m'" "m' < right" "ind ! j = ?x1 ! m'" by blast
      then show ?thesis using x1win[of m'] by auto
    qed
  qed
  have "mset ys = mset xs"
    using swap_entries_mset[OF sl] swap_entries_mset[OF m(3) lr(2)] a(2) ys by simp
  moreover have "\<And>j. j < left \<or> right < j \<Longrightarrow> ys ! j = xs ! j"
    using un x1 a(3,4) m by (auto simp: nth)
  moreover have "\<And>j. left \<le> j \<Longrightarrow> j \<le> right \<Longrightarrow> \<exists>m. left \<le> m \<and> m \<le> right \<and> ys ! j = xs ! m"
    using indwin a(3,4) lr(1) by (simp add: nth)
  moreover have "\<And>j. left \<le> j \<Longrightarrow> j < p \<Longrightarrow> coord points (ys ! j) d < coord points (ys ! p) d"
    using lo a(4) p unfolding ysp by (simp add: nth)
  moreover have "\<And>j. p < j \<Longrightarrow> j \<le> right \<Longrightarrow> coord points (ys ! p) d \<le> coord points (ys ! j) d"
  proof -
    fix j assume j: "p < j" "j \<le> right"
    show "coord points (ys ! p) d \<le> coord points (ys ! j) d"
    proof (cases "j = right")
      case True
      then have "ys ! j = ind ! s" by (simp add: nth)
      moreover have "s < right" using j p True by simp
      ultimately show ?thesis using hi[of s] ysp by simp
    next
      case False
      then have "ys ! j = ind ! j" "j < right" using j p by (simp_all add: nth)
      then show ?thesis using hi[of j] j p ysp by simp
    qed
  qed
  ultimately show ?thesis
    unfolding partitioned_def using a(1,3,4) p ys by simp
qed

lemma partition_kd_bounds:
  assumes "partition_kd indices points left right d = (indices', p)" and "left \<le> right"
  shows "left \<le> p \<and> p \<le> right \<and> length indices' = length indices"
proof -
  let ?pv = "coord points (indices ! ((left + right) div 2)) d"
  let ?x1 = "swap_entries indices ((left + right) div 2) right"
  have bound: "\<And>k. left \<le> k \<Longrightarrow>
     (case fold (partition_step points d ?pv) [left..<k] (?x1, left) of
        (ind, s) \<Rightarrow> left \<le> s \<and> s \<le> k \<and> length ind = length indices)"
  proof -
    fix k show "left \<le> k \<Longrightarrow>
     (case fold (partition_step points d ?pv) [left..<k] (?x1, left) of
        (ind, s) \<Rightarrow> left \<le> s \<and> s \<le> k \<and> length ind = length indices)"
    proof (induction k)
      case 0
      then show ?case by simp
    next
      case (Suc k)
      show ?case
      proof (cases "left \<le> k")
        case False
        with Suc.prems have "left = Suc k" by simp
        then show ?thesis by simp
      next
        case True
        then have up: "[left..<Suc k] = [left..<k] @ [k]" by simp
        from Suc.IH[OF True] show ?thesis
          unfolding up by (auto simp: partition_step_def split: prod.splits)
      qed
    qed
  qed
  from bound[OF assms(2)] assms(1) show ?thesis
    by (auto simp: partition_kd_def Let_def split: prod.splits)
qed

text \<open>
  \<open>left\<close>, \<open>right\<close> and \<open>n\<close> are non-negative C ints with \<open>left \<le> n \<le> right\<close>;
  \<open>pivot_idx - 1\<close> is computed only when \<open>pivot_idx > n \<ge> 0\<close>.
\<close>

function nth_element ::
  "nat list \<Rightarrow> cdbscan_point list \<Rightarrow> nat \<Rightarrow> nat \<Rightarrow> nat \<Rightarrow> nat \<Rightarrow> nat list" where
  "nth_element indices points left right n d =
     (if left < right then
        (case partition_kd indices points left right d of
           (indices', pivot_idx) \<Rightarrow>
             if pivot_idx = n then indices'
             else if pivot_idx > n
               then nth_element indices' points left (pivot_idx - 1) n d
               else nth_element indices' points (pivot_idx + 1) right n d)
      else indices)"
  by pat_completeness auto
termination
proof (relation "measure (\<lambda>(indices, points, left, right, n, d). right - left)", goal_cases)
  case 1
  then show ?case by simp
next
  case 2
  then show ?case
    by (auto dest: partition_kd_bounds[OF sym])
next
  case 3
  then show ?case
    by (auto dest: partition_kd_bounds[OF sym])
qed

declare nth_element.simps [simp del]

lemma length_nth_element:
  "length (nth_element indices points left right n d) = length indices"
proof (induction indices points left right n d rule: nth_element.induct)
  case (1 indices points left right n d)
  show ?case
  proof (cases "left < right")
    case False
    then show ?thesis by (subst nth_element.simps) simp
  next
    case True
    obtain indices' p where part: "partition_kd indices points left right d = (indices', p)"
      by (cases "partition_kd indices points left right d") auto
    from partition_kd_bounds[OF part] True have len: "length indices' = length indices"
      by simp
    consider "p = n" | "n < p" | "p < n" by linarith
    then show ?thesis
    proof cases
      case 1
      with True part len show ?thesis by (subst nth_element.simps) simp
    next
      case 2
      with "1.IH"(1)[OF True part[symmetric]] True part len show ?thesis
        by (subst nth_element.simps) simp
    next
      case 3
      with "1.IH"(2)[OF True part[symmetric]] True part len show ?thesis
        by (subst nth_element.simps) simp
    qed
  qed
qed

text \<open>
  \<open>kdtree_build_recursive\<close> receives a pointer into the index array and a count; both
  recursive calls work on disjoint parts of the array and the array is not read after
  they return, so the model passes each call its own slice. \<open>dimensions\<close> is positive
  whenever the function is reached (validation has passed).
\<close>

function kdtree_build_recursive ::
  "bool list \<Rightarrow> nat list \<Rightarrow> cdbscan_point list \<Rightarrow> nat \<Rightarrow> int \<Rightarrow> kdtree_node \<times> bool list" where
  "kdtree_build_recursive heap indices points depth dims =
     (if length indices = 0 then (Null, heap)
      else
        (case alloc heap of
           (False, heap1) \<Rightarrow> (Null, heap1)
         | (True, heap1) \<Rightarrow>
             if length indices = 1
             then (Node (indices ! 0) Null Null (depth mod nat dims), heap1)
             else
               (let split_dim = depth mod nat dims;
                    median_idx = length indices div 2;
                    indices' = nth_element indices points 0 (length indices - 1)
                                 median_idx split_dim
                in case kdtree_build_recursive heap1 (take median_idx indices') points
                          (depth + 1) dims of
                     (l, heap2) \<Rightarrow>
                       (case kdtree_build_recursive heap2 (drop (median_idx + 1) indices')
                               points (depth + 1) dims of
                          (r, heap3) \<Rightarrow>
                            (Node (indices' ! median_idx) l r split_dim, heap3)))))"
  by pat_completeness auto
termination
proof (relation "measure (\<lambda>(heap, indices, points, depth, dims). length indices)", goal_cases)
  case 1
  then show ?case by simp
next
  case 2
  then show ?case
    by (simp add: length_nth_element min_less_iff_disj)
next
  case 3
  then show ?case
    by (simp add: length_nth_element)
qed

declare kdtree_build_recursive.simps [simp del]

definition kdtree_build ::
  "bool list \<Rightarrow> cdbscan_point list option \<Rightarrow> int \<Rightarrow> kdtree_t option \<times> bool list" where
  "kdtree_build heap points num_points =
     (case points of
        None \<Rightarrow> (None, heap)
      | Some pts \<Rightarrow>
          if num_points \<le> 0 then (None, heap)
          else
            (case alloc heap of
               (False, heap1) \<Rightarrow> (None, heap1)
             | (True, heap1) \<Rightarrow>
                 (case alloc heap1 of
                    (False, heap2) \<Rightarrow> (None, heap2)
                  | (True, heap2) \<Rightarrow>
                      (let indices = [0..<nat num_points];
                           dims = dimensions (pts ! 0)
                       in case kdtree_build_recursive heap2 indices pts 0 dims of
                            (rt, heap3) \<Rightarrow>
                              (Some \<lparr>root = rt, tree_num_points = num_points,
                                     tree_dimensions = dims\<rparr>, heap3)))))"

text \<open>
  The pair \<open>neighbors\<close>, \<open>*count\<close> of the C function is the list of indices written so
  far, passed in and returned.
\<close>

fun kdtree_range_query_recursive ::
  "kdtree_node \<Rightarrow> cdbscan_point \<Rightarrow> real \<Rightarrow> cdbscan_point list \<Rightarrow> nat list \<Rightarrow> int
     \<Rightarrow> nat list" where
  "kdtree_range_query_recursive Null query_point e points neighbors dims = neighbors"
| "kdtree_range_query_recursive (Node point_idx l r split_dim) query_point e points
     neighbors dims =
     (let node_point = points ! point_idx;
          dist = cdbscan_euclidean_distance (coords query_point) (coords node_point) dims;
          neighbors1 = (if dist \<le> e then neighbors @ [point_idx] else neighbors);
          split_val = the (coords node_point) ! split_dim;
          query_val = the (coords query_point) ! split_dim;
          diff = query_val - split_val
      in if diff < 0 then
           (let neighbors2 = kdtree_range_query_recursive l query_point e points
                               neighbors1 dims
            in if \<bar>diff\<bar> \<le> e
               then kdtree_range_query_recursive r query_point e points neighbors2 dims
               else neighbors2)
         else
           (let neighbors2 = kdtree_range_query_recursive r query_point e points
                               neighbors1 dims
            in if \<bar>diff\<bar> \<le> e
               then kdtree_range_query_recursive l query_point e points neighbors2 dims
               else neighbors2))"

text \<open>\<open>qsort\<close> with \<open>compare_ints\<close> sorts the indices ascending.\<close>

definition kdtree_range_query ::
  "kdtree_t option \<Rightarrow> cdbscan_point list \<Rightarrow> nat \<Rightarrow> real \<Rightarrow> nat list" where
  "kdtree_range_query tree points query_idx e =
     (case tree of
        None \<Rightarrow> []
      | Some t \<Rightarrow>
          if root t = Null then []
          else
            (let query_point = points ! query_idx
             in sort (kdtree_range_query_recursive (root t) query_point e points []
                        (tree_dimensions t))))"

section \<open>Validation\<close>

definition cdbscan_validate_params :: "cdbscan_params \<Rightarrow> bool" where
  "cdbscan_validate_params params =
     (if eps params \<le> 0 then False
      else if min_pts params \<le> 0 then False
      else if dist_type params = CDBSCAN_DIST_MINKOWSKI \<and> minkowski_p params \<le> 0 then False
      else if dist_type params = CDBSCAN_DIST_CUSTOM \<and> custom_dist params = None then False
      else True)"

text \<open>The NaN and infinity tests on each coordinate never fire on reals.\<close>

definition cdbscan_validate_data :: "cdbscan_point list option \<Rightarrow> int \<Rightarrow> bool" where
  "cdbscan_validate_data points num_points =
     (case points of
        None \<Rightarrow> False
      | Some pts \<Rightarrow>
          if num_points \<le> 0 then False
          else
            (let dims = dimensions (pts ! 0)
             in if dims \<le> 0 then False
                else list_all (\<lambda>i. coords (pts ! i) \<noteq> None \<and> dimensions (pts ! i) = dims)
                       [0..<nat num_points]))"

section \<open>Cluster expansion\<close>

text \<open>\<open>points[i].cluster_id = c\<close>\<close>

definition set_cluster_id :: "cdbscan_point list \<Rightarrow> nat \<Rightarrow> int \<Rightarrow> cdbscan_point list" where
  "set_cluster_id points i c = points[i := (points ! i)\<lparr>cluster_id := c\<rparr>]"

text \<open>
  The working arrays \<open>neighbors\<close> and \<open>seeds\<close> have \<open>num_points\<close> slots each. A
  buffer is modelled by the list of its entries in use; a write past the last slot is
  undefined behaviour in C and is the result \<open>None\<close> here. A query that reports more
  entries than the buffer has slots has written past its end.
\<close>

definition buffer_fill :: "nat \<Rightarrow> nat list \<Rightarrow> nat list option" where
  "buffer_fill capacity entries = (if length entries \<le> capacity then Some entries else None)"

text \<open>
  \<open>expand_cluster\<close> and \<open>expand_cluster_kdtree\<close> are the same text except for the
  region query they call; the shared text is modelled once, with the query as a
  parameter (a function of the current point array and the query index).
\<close>

type_synonym region_query = "cdbscan_point list \<Rightarrow> nat \<Rightarrow> nat list"

text \<open>The loop that removes the core point from the seeds (a swap with the last seed).\<close>

fun remove_core_point :: "nat list \<Rightarrow> nat \<Rightarrow> nat list \<Rightarrow> nat list" where
  "remove_core_point seeds point_idx [] = seeds"
| "remove_core_point seeds point_idx (i # rest) =
     (if seeds ! i = point_idx then butlast (seeds[i := last seeds])
      else remove_core_point seeds point_idx rest)"

text \<open>The loop over the neighbours of a core seed.\<close>

fun expand_neighbors ::
  "nat \<Rightarrow> int \<Rightarrow> nat list \<Rightarrow> cdbscan_point list \<Rightarrow> nat list
     \<Rightarrow> (cdbscan_point list \<times> nat list) option" where
  "expand_neighbors capacity cid [] points seeds = Some (points, seeds)"
| "expand_neighbors capacity cid (neighbor_idx # rest) points seeds =
     (if cluster_id (points ! neighbor_idx) = CDBSCAN_UNCLASSIFIED
         \<or> cluster_id (points ! neighbor_idx) = CDBSCAN_NOISE
      then
        (if cluster_id (points ! neighbor_idx) = CDBSCAN_UNCLASSIFIED
         then
           (if length seeds < capacity
            then expand_neighbors capacity cid rest
                   (set_cluster_id points neighbor_idx cid) (seeds @ [neighbor_idx])
            else None)
         else expand_neighbors capacity cid rest
                (set_cluster_id points neighbor_idx cid) seeds)
      else expand_neighbors capacity cid rest points seeds)"

lemma expand_neighbors_length:
  "expand_neighbors capacity cid neighbors points seeds = Some (points', seeds')
   \<Longrightarrow> length seeds \<le> length seeds' \<and> length seeds' \<le> max capacity (length seeds)"
  by (induction neighbors arbitrary: points seeds) (fastforce split: if_splits)+

text \<open>The loop that processes the seeds, with its cursor \<open>current_seed\<close>.\<close>

function expand_seeds ::
  "region_query \<Rightarrow> nat \<Rightarrow> int \<Rightarrow> int \<Rightarrow> cdbscan_point list \<Rightarrow> nat list \<Rightarrow> nat
     \<Rightarrow> (cdbscan_point list \<times> nat list) option" where
  "expand_seeds query capacity minpts cid points seeds current_seed =
     (if current_seed < length seeds then
        (case buffer_fill capacity (query points (seeds ! current_seed)) of
           None \<Rightarrow> None
         | Some neighbors \<Rightarrow>
             if int (length neighbors) \<ge> minpts then
               (case expand_neighbors capacity cid neighbors points seeds of
                  None \<Rightarrow> None
                | Some (points', seeds') \<Rightarrow>
                    expand_seeds query capacity minpts cid points' seeds' (current_seed + 1))
             else expand_seeds query capacity minpts cid points seeds (current_seed + 1))
      else Some (points, seeds))"
  by pat_completeness auto
termination
proof (relation "measure (\<lambda>(query, capacity, minpts, cid, points, seeds, current_seed).
                    max capacity (length seeds) - current_seed)", goal_cases)
  case 1
  then show ?case by simp
next
  case (2 query capacity minpts cid points seeds current_seed neighbors x points' seeds')
  then have "expand_neighbors capacity cid neighbors points seeds = Some (points', seeds')"
    by simp
  from expand_neighbors_length[OF this] 2 show ?case
    by auto
next
  case 3
  then show ?case by auto
qed

declare expand_seeds.simps [simp del]

definition expand_cluster_with ::
  "region_query \<Rightarrow> cdbscan_point list \<Rightarrow> int \<Rightarrow> nat \<Rightarrow> int \<Rightarrow> cdbscan_params
     \<Rightarrow> (int \<times> cdbscan_point list \<times> nat list) option" where
  "expand_cluster_with query points num_points point_idx cid params =
     (case buffer_fill (nat num_points) (query points point_idx) of
        None \<Rightarrow> None
      | Some seeds \<Rightarrow>
          if int (length seeds) < min_pts params
          then Some (0, set_cluster_id points point_idx CDBSCAN_NOISE, seeds)
          else
            (let points1 = fold (\<lambda>s pts. set_cluster_id pts s cid) seeds points;
                 seeds1 = remove_core_point seeds point_idx [0..<length seeds]
             in case expand_seeds query (nat num_points) (min_pts params) cid
                       points1 seeds1 0 of
                  None \<Rightarrow> None
                | Some (points2, seeds2) \<Rightarrow> Some (1, points2, seeds2)))"

text \<open>
  Both functions return the C return value (1: expanded, 0: not a core point), the
  point array and the seeds left in the buffer (its length is \<open>*seed_size\<close>).
\<close>

definition expand_cluster ::
  "cdbscan_point list \<Rightarrow> int \<Rightarrow> nat \<Rightarrow> int \<Rightarrow> cdbscan_params
     \<Rightarrow> (int \<times> cdbscan_point list \<times> nat list) option" where
  "expand_cluster points num_points point_idx cid params =
     expand_cluster_with
       (\<lambda>pts i. cdbscan_region_query_custom (Some pts) num_points (int i) params)
       points num_points point_idx cid params"

definition expand_cluster_kdtree ::
  "cdbscan_point list \<Rightarrow> int \<Rightarrow> nat \<Rightarrow> int \<Rightarrow> cdbscan_params \<Rightarrow> kdtree_t
     \<Rightarrow> (int \<times> cdbscan_point list \<times> nat list) option" where
  "expand_cluster_kdtree points num_points point_idx cid params tree =
     expand_cluster_with
       (\<lambda>pts i. kdtree_range_query (Some tree) pts i (eps params))
       points num_points point_idx cid params"

section \<open>Main clustering function\<close>

text \<open>The loop over all points, with its index \<open>i\<close> and the counter \<open>cluster_id\<close>.\<close>

function cluster_loop ::
  "kdtree_t option \<Rightarrow> cdbscan_params \<Rightarrow> int \<Rightarrow> nat \<Rightarrow> int \<Rightarrow> cdbscan_point list
     \<Rightarrow> (int \<times> cdbscan_point list) option" where
  "cluster_loop tree params num_points i cid points =
     (if int i < num_points then
        (if cluster_id (points ! i) \<noteq> CDBSCAN_UNCLASSIFIED
         then cluster_loop tree params num_points (i + 1) cid points
         else
           (case buffer_fill (nat num_points)
                   (case tree of
                      Some t \<Rightarrow> kdtree_range_query (Some t) points i (eps params)
                    | None \<Rightarrow> cdbscan_region_query_custom (Some points) num_points
                                (int i) params) of
              None \<Rightarrow> None
            | Some neighbors \<Rightarrow>
                if int (length neighbors) < min_pts params
                then cluster_loop tree params num_points (i + 1) cid
                       (set_cluster_id points i CDBSCAN_NOISE)
                else
                  (case (case tree of
                           Some t \<Rightarrow> expand_cluster_kdtree points num_points i cid params t
                         | None \<Rightarrow> expand_cluster points num_points i cid params) of
                     None \<Rightarrow> None
                   | Some (expanded, points', seeds) \<Rightarrow>
                       cluster_loop tree params num_points (i + 1)
                         (if expanded \<noteq> 0 then cid + 1 else cid) points')))
      else Some (cid, points))"
  by pat_completeness auto
termination
  by (relation "measure (\<lambda>(tree, params, num_points, i, cid, points). nat num_points - i)")
     auto

declare cluster_loop.simps [simp del]

text \<open>
  One iteration of the loop of \<open>cdbscan_cluster\<close> over the points (the body of
  \<open>cluster_loop\<close>), and \<open>k\<close> iterations in a row from index \<open>i\<close>: the state of the run
  when the loop is at its head for the \<open>k\<close>-th time after that.
\<close>

definition cluster_step ::
  "kdtree_t option \<Rightarrow> cdbscan_params \<Rightarrow> int \<Rightarrow> nat \<Rightarrow> int \<Rightarrow> cdbscan_point list
     \<Rightarrow> (int \<times> cdbscan_point list) option" where
  "cluster_step tree params num_points i cid points =
     (if cluster_id (points ! i) \<noteq> CDBSCAN_UNCLASSIFIED then Some (cid, points)
      else
        (case buffer_fill (nat num_points)
                (case tree of
                   Some t \<Rightarrow> kdtree_range_query (Some t) points i (eps params)
                 | None \<Rightarrow> cdbscan_region_query_custom (Some points) num_points
                             (int i) params) of
           None \<Rightarrow> None
         | Some neighbors \<Rightarrow>
             if int (length neighbors) < min_pts params
             then Some (cid, set_cluster_id points i CDBSCAN_NOISE)
             else
               (case (case tree of
                        Some t \<Rightarrow> expand_cluster_kdtree points num_points i cid params t
                      | None \<Rightarrow> expand_cluster points num_points i cid params) of
                  None \<Rightarrow> None
                | Some (expanded, points', seeds) \<Rightarrow>
                    Some (if expanded \<noteq> 0 then cid + 1 else cid, points'))))"

fun cluster_steps ::
  "kdtree_t option \<Rightarrow> cdbscan_params \<Rightarrow> int \<Rightarrow> nat \<Rightarrow> nat \<Rightarrow> int \<Rightarrow> cdbscan_point list
     \<Rightarrow> (int \<times> cdbscan_point list) option" where
  "cluster_steps tree params num_points 0 i cid points = Some (cid, points)"
| "cluster_steps tree params num_points (Suc k) i cid points =
     (case cluster_step tree params num_points i cid points of
        None \<Rightarrow> None
      | Some (cid', points') \<Rightarrow> cluster_steps tree params num_points k (i + 1) cid' points')"

text \<open>The loop that resets every label and stores every array position.\<close>

definition init_points :: "cdbscan_point list \<Rightarrow> int \<Rightarrow> cdbscan_point list" where
  "init_points points num_points =
     fold (\<lambda>i pts. pts[i := (pts ! i)\<lparr>cluster_id := CDBSCAN_UNCLASSIFIED, index := int i\<rparr>])
       [0..<nat num_points] points"

text \<open>
  The result is the C return value with the point array as the call leaves it;
  \<open>None\<close> stands for an execution that wrote past the end of a working array.
\<close>

definition cdbscan_cluster ::
  "bool list \<Rightarrow> cdbscan_point list option \<Rightarrow> int \<Rightarrow> cdbscan_params
     \<Rightarrow> (int \<times> cdbscan_point list option) option" where
  "cdbscan_cluster heap points num_points params =
     (if \<not> cdbscan_validate_params params then Some (-1, points)
      else if \<not> cdbscan_validate_data points num_points then Some (-1, points)
      else
        (case points of
           None \<Rightarrow> Some (-1, points)
         | Some pts \<Rightarrow>
             (let points1 = init_points pts num_points;
                  (neighbors_ok, heap1) = alloc heap;
                  (seeds_ok, heap2) = alloc heap1
              in if \<not> neighbors_ok \<or> \<not> seeds_ok then Some (-1, Some points1)
                 else
                   (let tree = (if use_kdtree params \<noteq> 0
                                   \<and> dist_type params = CDBSCAN_DIST_EUCLIDEAN
                                then fst (kdtree_build heap2 (Some points1) num_points)
                                else None);
                        params1 = (if use_kdtree params \<noteq> 0
                                      \<and> dist_type params = CDBSCAN_DIST_EUCLIDEAN
                                      \<and> tree = None
                                   then params\<lparr>use_kdtree := 0\<rparr> else params)
                    in case cluster_loop tree params1 num_points 0 0 points1 of
                         None \<Rightarrow> None
                       | Some (cid, points2) \<Rightarrow> Some (cid, Some points2)))))"

section \<open>Radius estimation\<close>



section \<open>Correctness of the KD-tree\<close>

text \<open>
  The state of \<open>nth_element\<close> between two rounds: every entry in front of the window is
  at most every entry from the window on, and every entry behind the window is at least
  every entry up to the window's end.
\<close>

definition window_inv ::
  "cdbscan_point list \<Rightarrow> nat \<Rightarrow> nat list \<Rightarrow> nat \<Rightarrow> nat \<Rightarrow> bool" where
  "window_inv points d xs left right \<longleftrightarrow>
     right < length xs
     \<and> (\<forall>i j. i < left \<and> left \<le> j \<and> j < length xs
              \<longrightarrow> coord points (xs ! i) d \<le> coord points (xs ! j) d)
     \<and> (\<forall>i j. right < i \<and> i < length xs \<and> j \<le> right
              \<longrightarrow> coord points (xs ! j) d \<le> coord points (xs ! i) d)"

definition selected :: "cdbscan_point list \<Rightarrow> nat \<Rightarrow> nat list \<Rightarrow> nat \<Rightarrow> bool" where
  "selected points d ys n \<longleftrightarrow>
     (\<forall>i. i < n \<longrightarrow> coord points (ys ! i) d \<le> coord points (ys ! n) d)
     \<and> (\<forall>i. n < i \<and> i < length ys \<longrightarrow> coord points (ys ! n) d \<le> coord points (ys ! i) d)"

lemma partitioned_window:
  assumes P: "partitioned points d xs left right ys p" and W: "window_inv points d xs left right"
    and lr: "left \<le> right"
  shows "window_inv points d ys left right"
proof -
  from P have len: "length ys = length xs"
    and out: "\<And>j. j < left \<or> right < j \<Longrightarrow> ys ! j = xs ! j"
    and win: "\<And>j. left \<le> j \<Longrightarrow> j \<le> right \<Longrightarrow> \<exists>m. left \<le> m \<and> m \<le> right \<and> ys ! j = xs ! m"
    unfolding partitioned_def by blast+
  from W have r: "right < length xs"
    and w1: "\<And>i j. i < left \<Longrightarrow> left \<le> j \<Longrightarrow> j < length xs
               \<Longrightarrow> coord points (xs ! i) d \<le> coord points (xs ! j) d"
    and w2: "\<And>i j. right < i \<Longrightarrow> i < length xs \<Longrightarrow> j \<le> right
               \<Longrightarrow> coord points (xs ! j) d \<le> coord points (xs ! i) d"
    unfolding window_inv_def by blast+
  have a: "coord points (ys ! i) d \<le> coord points (ys ! j) d"
    if "i < left" "left \<le> j" "j < length xs" for i j
  proof (cases "j \<le> right")
    case True
    from win[OF that(2) True] obtain m where m: "left \<le> m" "m \<le> right" "ys ! j = xs ! m" by blast
    then show ?thesis using w1[of i m] that r out[of i] by simp
  next
    case False
    then show ?thesis using w1[of i j] that out[of i] out[of j] by simp
  qed
  have b: "coord points (ys ! j) d \<le> coord points (ys ! i) d"
    if "right < i" "i < length xs" "j \<le> right" for i j
  proof (cases "left \<le> j")
    case True
    from win[OF True that(3)] obtain m where m: "left \<le> m" "m \<le> right" "ys ! j = xs ! m" by blast
    then show ?thesis using w2[of i m] that out[of i] by simp
  next
    case False
    then show ?thesis using w2[of i j] that out[of i] out[of j] by simp
  qed
  show ?thesis unfolding window_inv_def using a b r len by simp
qed

lemma window_shrink_right:
  assumes P: "partitioned points d xs left right ys p" and W: "window_inv points d ys left right"
    and n: "left \<le> n" "n < p"
  shows "window_inv points d ys left (p - 1)"
proof -
  from P have pr: "left \<le> p" "p \<le> right"
    and lo: "\<And>j. left \<le> j \<Longrightarrow> j < p \<Longrightarrow> coord points (ys ! j) d < coord points (ys ! p) d"
    and hi: "\<And>j. p < j \<Longrightarrow> j \<le> right \<Longrightarrow> coord points (ys ! p) d \<le> coord points (ys ! j) d"
    unfolding partitioned_def by blast+
  from W have r: "right < length ys"
    and w1: "\<And>i j. i < left \<Longrightarrow> left \<le> j \<Longrightarrow> j < length ys
               \<Longrightarrow> coord points (ys ! i) d \<le> coord points (ys ! j) d"
    and w2: "\<And>i j. right < i \<Longrightarrow> i < length ys \<Longrightarrow> j \<le> right
               \<Longrightarrow> coord points (ys ! j) d \<le> coord points (ys ! i) d"
    unfolding window_inv_def by blast+
  have b: "coord points (ys ! j) d \<le> coord points (ys ! i) d"
    if "p - 1 < i" "i < length ys" "j \<le> p - 1" for i j
  proof -
    have ip: "p \<le> i" and jp: "j < p" using that n by simp_all
    show ?thesis
    proof (cases "left \<le> j")
      case False
      then show ?thesis using w1[of j i] ip pr that by simp
    next
      case True
      have jl: "coord points (ys ! j) d < coord points (ys ! p) d" using lo[OF True jp] .
      consider "i = p" | "p < i" "i \<le> right" | "right < i" using ip by linarith
      then show ?thesis
      proof cases
        case 1
        then show ?thesis using jl by simp
      next
        case 2
        then show ?thesis using jl hi[of i] by simp
      next
        case 3
        then show ?thesis using w2[of i j] that jp pr by simp
      qed
    qed
  qed
  show ?thesis unfolding window_inv_def using w1 b r pr by simp
qed

lemma window_shrink_left:
  assumes P: "partitioned points d xs left right ys p" and W: "window_inv points d ys left right"
    and n: "p < n" "n \<le> right"
  shows "window_inv points d ys (p + 1) right"
proof -
  from P have pr: "left \<le> p" "p \<le> right"
    and lo: "\<And>j. left \<le> j \<Longrightarrow> j < p \<Longrightarrow> coord points (ys ! j) d < coord points (ys ! p) d"
    and hi: "\<And>j. p < j \<Longrightarrow> j \<le> right \<Longrightarrow> coord points (ys ! p) d \<le> coord points (ys ! j) d"
    unfolding partitioned_def by blast+
  from W have r: "right < length ys"
    and w1: "\<And>i j. i < left \<Longrightarrow> left \<le> j \<Longrightarrow> j < length ys
               \<Longrightarrow> coord points (ys ! i) d \<le> coord points (ys ! j) d"
    and w2: "\<And>i j. right < i \<Longrightarrow> i < length ys \<Longrightarrow> j \<le> right
               \<Longrightarrow> coord points (ys ! j) d \<le> coord points (ys ! i) d"
    unfolding window_inv_def by blast+
  have a: "coord points (ys ! i) d \<le> coord points (ys ! j) d"
    if "i < p + 1" "p + 1 \<le> j" "j < length ys" for i j
  proof -
    have ip: "i \<le> p" and jp: "p < j" using that by simp_all
    show ?thesis
    proof (cases "j \<le> right")
      case False
      then show ?thesis using w2[of j i] ip pr that by simp
    next
      case True
      have jl: "coord points (ys ! p) d \<le> coord points (ys ! j) d" using hi[OF jp True] .
      consider "i = p" | "left \<le> i" "i < p" | "i < left" using ip by linarith
      then show ?thesis
      proof cases
        case 1
        then show ?thesis using jl by simp
      next
        case 2
        then show ?thesis using jl lo[of i] by simp
      next
        case 3
        then show ?thesis using w1[of i j] that jp pr by simp
      qed
    qed
  qed
  show ?thesis unfolding window_inv_def using w2 a r by simp
qed

lemma partitioned_selected:
  assumes P: "partitioned points d xs left right ys p" and W: "window_inv points d ys left right"
  shows "selected points d ys p"
proof -
  from P have pr: "left \<le> p" "p \<le> right"
    and lo: "\<And>j. left \<le> j \<Longrightarrow> j < p \<Longrightarrow> coord points (ys ! j) d < coord points (ys ! p) d"
    and hi: "\<And>j. p < j \<Longrightarrow> j \<le> right \<Longrightarrow> coord points (ys ! p) d \<le> coord points (ys ! j) d"
    unfolding partitioned_def by blast+
  from W have r: "right < length ys"
    and w1: "\<And>i j. i < left \<Longrightarrow> left \<le> j \<Longrightarrow> j < length ys
               \<Longrightarrow> coord points (ys ! i) d \<le> coord points (ys ! j) d"
    and w2: "\<And>i j. right < i \<Longrightarrow> i < length ys \<Longrightarrow> j \<le> right
               \<Longrightarrow> coord points (ys ! j) d \<le> coord points (ys ! i) d"
    unfolding window_inv_def by blast+
  have "coord points (ys ! i) d \<le> coord points (ys ! p) d" if "i < p" for i
    using w1[of i p] lo[of i] that pr r by (cases "left \<le> i") simp_all
  moreover have "coord points (ys ! p) d \<le> coord points (ys ! i) d" if "p < i" "i < length ys" for i
    using w2[of i p] hi[of i] that pr by (cases "i \<le> right") simp_all
  ultimately show ?thesis unfolding selected_def by simp
qed

lemma nth_element_spec:
  "left \<le> n \<Longrightarrow> n \<le> right \<Longrightarrow> window_inv points d xs left right \<Longrightarrow>
   mset (nth_element xs points left right n d) = mset xs
   \<and> selected points d (nth_element xs points left right n d) n"
proof (induction xs points left right n d rule: nth_element.induct)
  case (1 indices points left right n d)
  note W = "1.prems"(3)
  show ?case
  proof (cases "left < right")
    case False
    then have eq: "left = n" "right = n" using "1.prems" by simp_all
    have res: "nth_element indices points left right n d = indices"
      using False by (subst nth_element.simps) simp
    from W have "selected points d indices n"
      unfolding window_inv_def selected_def eq by simp
    then show ?thesis using res by simp
  next
    case True
    obtain ys p where part: "partition_kd indices points left right d = (ys, p)"
      by (cases "partition_kd indices points left right d")
    have r: "right < length indices" using W by (simp add: window_inv_def)
    have lr: "left \<le> right" using True by simp
    have P: "partitioned points d indices left right ys p"
      by (rule partition_kd_partitioned[OF lr r part])
    have Wy: "window_inv points d ys left right"
      by (rule partitioned_window[OF P W lr])
    have ms: "mset ys = mset indices" using P by (simp add: partitioned_def)
    consider "p = n" | "n < p" | "p < n" by linarith
    then show ?thesis
    proof cases
      case 1
      have "nth_element indices points left right n d = ys"
        using True part 1 by (subst nth_element.simps) simp
      then show ?thesis using partitioned_selected[OF P Wy] ms 1 by simp
    next
      case 2
      have res: "nth_element indices points left right n d
                 = nth_element ys points left (p - 1) n d"
        using True part 2 by (subst nth_element.simps) simp
      have "n \<le> p - 1" using 2 by simp
      from "1.IH"(1)[OF True part[symmetric] _ _ "1.prems"(1) this
             window_shrink_right[OF P Wy "1.prems"(1) 2]] 2
      show ?thesis using res ms by simp
    next
      case 3
      have res: "nth_element indices points left right n d
                 = nth_element ys points (p + 1) right n d"
        using True part 3 by (subst nth_element.simps) simp
      have "p + 1 \<le> n" using 3 by simp
      from "1.IH"(2)[OF True part[symmetric] _ _ this "1.prems"(2)
             window_shrink_left[OF P Wy 3 "1.prems"(2)]] 3
      show ?thesis using res ms by simp
    qed
  qed
qed


text \<open>The point indices stored in a tree, and the ordering of a tree along its splits.\<close>

fun tree_mset :: "kdtree_node \<Rightarrow> nat multiset" where
  "tree_mset Null = {#}"
| "tree_mset (Node i l r sd) = {#i#} + tree_mset l + tree_mset r"

fun kd_inv :: "cdbscan_point list \<Rightarrow> nat \<Rightarrow> kdtree_node \<Rightarrow> bool" where
  "kd_inv points dims Null = True"
| "kd_inv points dims (Node i l r sd) =
     (sd < dims
      \<and> (\<forall>j. j \<in># tree_mset l \<longrightarrow> coord points j sd \<le> coord points i sd)
      \<and> (\<forall>j. j \<in># tree_mset r \<longrightarrow> coord points i sd \<le> coord points j sd)
      \<and> kd_inv points dims l \<and> kd_inv points dims r)"

lemma window_inv_whole: "xs \<noteq> [] \<Longrightarrow> window_inv points d xs 0 (length xs - 1)"
  by (auto simp: window_inv_def)

lemma kdtree_build_recursive_inv:
  "0 < dims \<Longrightarrow>
   kd_inv points (nat dims) (fst (kdtree_build_recursive heap xs points depth dims))
   \<and> tree_mset (fst (kdtree_build_recursive heap xs points depth dims)) \<subseteq># mset xs
   \<and> ((\<forall>b\<in>set heap. b) \<longrightarrow>
        tree_mset (fst (kdtree_build_recursive heap xs points depth dims)) = mset xs
        \<and> (\<forall>b\<in>set (snd (kdtree_build_recursive heap xs points depth dims)). b))"
proof (induction heap xs points depth dims rule: kdtree_build_recursive.induct)
  case (1 heap indices points depth dims)
  note dims = "1.prems"
  let ?sd = "depth mod nat dims"
  have sd: "?sd < nat dims" using dims by simp
  show ?case
  proof (cases "length indices = 0")
    case True
    then show ?thesis by (subst (1 2 3 4) kdtree_build_recursive.simps) simp
  next
    case ne: False
    obtain ok heap1 where al: "alloc heap = (ok, heap1)" by (cases "alloc heap")
    have h1: "(\<forall>b\<in>set heap. b) \<Longrightarrow> ok \<and> (\<forall>b\<in>set heap1. b)"
      using al by (cases heap) auto
    show ?thesis
    proof (cases ok)
      case False
      then have "kdtree_build_recursive heap indices points depth dims = (Null, heap1)"
        using ne al by (subst kdtree_build_recursive.simps) simp
      then show ?thesis using h1 False by auto
    next
      case True
      show ?thesis
      proof (cases "length indices = 1")
        case one: True
        then obtain x where x: "indices = [x]" by (cases indices) auto
        have "kdtree_build_recursive heap indices points depth dims
                = (Node (indices ! 0) Null Null ?sd, heap1)"
          using ne al True one by (subst kdtree_build_recursive.simps) simp
        then show ?thesis using h1 sd x by auto
      next
        case many: False
        have okT: "ok = True" using True by simp
        let ?m = "length indices div 2"
        let ?xs = "nth_element indices points 0 (length indices - 1) ?m ?sd"
        obtain l heap2 where L:
          "kdtree_build_recursive heap1 (take ?m ?xs) points (depth + 1) dims = (l, heap2)"
          by (cases "kdtree_build_recursive heap1 (take ?m ?xs) points (depth + 1) dims")
        obtain r heap3 where R:
          "kdtree_build_recursive heap2 (drop (?m + 1) ?xs) points (depth + 1) dims = (r, heap3)"
          by (cases "kdtree_build_recursive heap2 (drop (?m + 1) ?xs) points (depth + 1) dims")
        have res: "kdtree_build_recursive heap indices points depth dims
                = (Node (?xs ! ?m) l r ?sd, heap3)"
          using ne al True many L R by (subst kdtree_build_recursive.simps) (simp add: Let_def)
        have nonempty: "indices \<noteq> []" using ne by simp
        have m: "?m \<le> length indices - 1" "?m < length indices" using ne by simp_all
        have m0: "0 \<le> ?m" by simp
        from nth_element_spec[OF m0 m(1) window_inv_whole[OF nonempty], of points ?sd]
        have ms: "mset ?xs = mset indices" and sel: "selected points ?sd ?xs ?m"
          by simp_all
        have len: "length ?xs = length indices" by (rule length_nth_element)
        note IHl = "1.IH"(1)[OF ne al[symmetric] okT many refl refl refl dims, unfolded L fst_conv snd_conv]
        have ihl: "kd_inv points (nat dims) l" "tree_mset l \<subseteq># mset (take ?m ?xs)"
          using IHl by blast+
        have ihl3: "tree_mset l = mset (take ?m ?xs) \<and> (\<forall>b\<in>set heap2. b)"
          if "\<forall>b\<in>set heap1. b"
          using IHl that by blast
        note IHr = "1.IH"(2)[OF ne al[symmetric] okT many refl refl refl L[symmetric] dims, unfolded R fst_conv snd_conv]
        have ihr: "kd_inv points (nat dims) r" "tree_mset r \<subseteq># mset (drop (?m + 1) ?xs)"
          using IHr by blast+
        have ihr3: "tree_mset r = mset (drop (?m + 1) ?xs) \<and> (\<forall>b\<in>set heap3. b)"
          if "\<forall>b\<in>set heap2. b"
          using IHr that by blast
        have "?xs = take ?m ?xs @ ?xs ! ?m # drop (Suc ?m) ?xs"
          using m(2) len by (intro id_take_nth_drop) simp
        then have "mset ?xs = mset (take ?m ?xs @ ?xs ! ?m # drop (Suc ?m) ?xs)"
          by (rule arg_cong)
        then have split: "mset ?xs = {#?xs ! ?m#} + mset (take ?m ?xs) + mset (drop (?m + 1) ?xs)"
          by simp
        have lo: "coord points j ?sd \<le> coord points (?xs ! ?m) ?sd" if "j \<in># tree_mset l" for j
        proof -
          from that ihl(2) have "j \<in> set (take ?m ?xs)"
            by (metis mset_subset_eqD set_mset_mset)
          then obtain i where "i < ?m" "j = ?xs ! i"
            using m(2) len by (auto simp: in_set_conv_nth)
          then show ?thesis using sel by (simp add: selected_def)
        qed
        have hi: "coord points (?xs ! ?m) ?sd \<le> coord points j ?sd" if "j \<in># tree_mset r" for j
        proof -
          from that ihr(2) have "j \<in> set (drop (?m + 1) ?xs)"
            by (metis mset_subset_eqD set_mset_mset)
          then obtain k where k: "k < length (drop (?m + 1) ?xs)" "j = drop (?m + 1) ?xs ! k"
            unfolding in_set_conv_nth by blast
          have kl: "k < length ?xs - (?m + 1)" using k(1) by simp
          then have b: "?m + 1 + k < length ?xs" by linarith
          have "j = ?xs ! (?m + 1 + k)" using k(2) b by simp
          then show ?thesis using sel b by (simp add: selected_def)
        qed
        have "tree_mset l + tree_mset r \<subseteq># mset (take ?m ?xs) + mset (drop (?m + 1) ?xs)"
          using ihl(2) ihr(2) by (rule subset_mset.add_mono)
        then have "{#?xs ! ?m#} + tree_mset l + tree_mset r \<subseteq># mset ?xs"
          unfolding split by simp
        then have sub: "tree_mset (Node (?xs ! ?m) l r ?sd) \<subseteq># mset indices"
          using ms by simp
        have full: "tree_mset (Node (?xs ! ?m) l r ?sd) = mset indices \<and> (\<forall>b\<in>set heap3. b)"
          if "\<forall>b\<in>set heap. b"
        proof -
          from h1[OF that] have a1: "\<forall>b\<in>set heap1. b" by blast
          from ihl3[OF a1] have l: "tree_mset l = mset (take ?m ?xs)" and a2: "\<forall>b\<in>set heap2. b"
            by blast+
          from ihr3[OF a2] have r: "tree_mset r = mset (drop (?m + 1) ?xs)" and a3: "\<forall>b\<in>set heap3. b"
            by blast+
          show ?thesis using l r a3 split ms by simp
        qed
        have A: "kd_inv points (nat dims) (Node (?xs ! ?m) l r ?sd)"
          using sd lo hi ihl(1) ihr(1) by simp
        have C: "(\<forall>b\<in>set heap. b) \<longrightarrow>
            tree_mset (Node (?xs ! ?m) l r ?sd) = mset indices \<and> (\<forall>b\<in>set heap3. b)"
          using full by blast
        show ?thesis
          unfolding res fst_conv snd_conv using A sub C by blast
      qed
    qed
  qed
qed


lemma fold_add_sum_list:
  "fold (\<lambda>i (s::real). s + f i) xs a = a + sum_list (map f xs)"
  by (induction xs arbitrary: a) simp_all

lemma euclidean_distance_eq:
  "0 < dims \<Longrightarrow>
   cdbscan_euclidean_distance (Some qs) (Some xs) dims
     = sqrt (\<Sum>i = 0..<nat dims. (qs ! i - xs ! i) * (qs ! i - xs ! i))"
  by (simp add: cdbscan_euclidean_distance_def fold_add_sum_list
        interv_sum_list_conv_sum_set_nat)

lemma euclidean_distance_nonneg:
  "0 < dims \<Longrightarrow> 0 \<le> cdbscan_euclidean_distance (Some qs) (Some xs) dims"
  by (simp add: euclidean_distance_eq sum_nonneg)

lemma euclidean_distance_ge_coord:
  assumes "sd < nat dims"
  shows "\<bar>qs ! sd - xs ! sd\<bar> \<le> cdbscan_euclidean_distance (Some qs) (Some xs) dims"
proof -
  let ?f = "\<lambda>i. (qs ! i - xs ! i) * (qs ! i - xs ! i)"
  have dims: "0 < dims" using assms by simp
  have "?f sd \<le> (\<Sum>i = 0..<nat dims. ?f i)"
    using assms by (intro member_le_sum) simp_all
  then have "sqrt (?f sd) \<le> sqrt (\<Sum>i = 0..<nat dims. ?f i)"
    by (rule real_sqrt_le_mono)
  then show ?thesis
    by (simp add: euclidean_distance_eq[OF dims])
qed

lemma range_query_recursive_mset:
  assumes q: "coords query_point = Some qs"
  shows "kd_inv points (nat dims) t \<Longrightarrow>
     (\<forall>j. j \<in># tree_mset t \<longrightarrow> coords (points ! j) \<noteq> None) \<Longrightarrow>
     mset (kdtree_range_query_recursive t query_point e points acc dims)
       = mset acc + filter_mset
           (\<lambda>j. cdbscan_euclidean_distance (coords query_point) (coords (points ! j)) dims \<le> e)
           (tree_mset t)"
proof (induction t arbitrary: acc)
  case Null
  then show ?case by simp
next
  case (Node i l r sd)
  let ?P = "\<lambda>j. cdbscan_euclidean_distance (coords query_point) (coords (points ! j)) dims \<le> e"
  let ?nb1 = "if ?P i then acc @ [i] else acc"
  let ?diff = "the (coords query_point) ! sd - the (coords (points ! i)) ! sd"
  from Node.prems(1) have sd: "sd < nat dims"
    and lo: "\<And>j. j \<in># tree_mset l \<Longrightarrow> coord points j sd \<le> coord points i sd"
    and hi: "\<And>j. j \<in># tree_mset r \<Longrightarrow> coord points i sd \<le> coord points j sd"
    and il: "kd_inv points (nat dims) l" and ir: "kd_inv points (nat dims) r"
    by simp_all
  have nn: "\<And>j. j \<in># tree_mset l \<or> j \<in># tree_mset r \<Longrightarrow> coords (points ! j) \<noteq> None"
    using Node.prems(2) by auto
  have L: "\<And>a. mset (kdtree_range_query_recursive l query_point e points a dims)
             = mset a + filter_mset ?P (tree_mset l)"
    using Node.IH(1)[OF il] nn by simp
  have R: "\<And>a. mset (kdtree_range_query_recursive r query_point e points a dims)
             = mset a + filter_mset ?P (tree_mset r)"
    using Node.IH(2)[OF ir] nn by simp
  have far: "\<not> ?P j" if "coords (points ! j) \<noteq> None"
      and "e < \<bar>the (coords query_point) ! sd - coord points j sd\<bar>" for j
  proof -
    from that(1) obtain xs where xs: "coords (points ! j) = Some xs" by auto
    from euclidean_distance_ge_coord[OF sd, of qs xs] that(2) q xs
    show ?thesis by (simp add: coord_def)
  qed
  have nb1: "mset ?nb1 = mset acc + filter_mset ?P {#i#}" by simp
  have dq: "?diff = the (coords query_point) ! sd - coord points i sd"
    by (simp add: coord_def)
  show ?case
  proof (cases "?diff < 0")
    case neg: True
    show ?thesis
    proof (cases "\<bar>?diff\<bar> \<le> e")
      case True
      have "kdtree_range_query_recursive (Node i l r sd) query_point e points acc dims
         = kdtree_range_query_recursive r query_point e points
             (kdtree_range_query_recursive l query_point e points ?nb1 dims) dims"
        using neg True by (simp add: Let_def)
      then show ?thesis by (simp add: L R)
    next
      case False
      have res: "kdtree_range_query_recursive (Node i l r sd) query_point e points acc dims
         = kdtree_range_query_recursive l query_point e points ?nb1 dims"
        using neg False by (simp add: Let_def)
      have "\<not> ?P j" if "j \<in># tree_mset r" for j
      proof (rule far)
        show "coords (points ! j) \<noteq> None" using nn that by simp
        show "e < \<bar>the (coords query_point) ! sd - coord points j sd\<bar>"
          using hi[OF that] neg False dq by linarith
      qed
      then have "filter_mset ?P (tree_mset r) = {#}"
        by simp
      then show ?thesis unfolding res by (simp add: L)
    qed
  next
    case pos: False
    show ?thesis
    proof (cases "\<bar>?diff\<bar> \<le> e")
      case True
      have "kdtree_range_query_recursive (Node i l r sd) query_point e points acc dims
         = kdtree_range_query_recursive l query_point e points
             (kdtree_range_query_recursive r query_point e points ?nb1 dims) dims"
        using pos True by (simp add: Let_def)
      then show ?thesis by (simp add: L R)
    next
      case False
      have res: "kdtree_range_query_recursive (Node i l r sd) query_point e points acc dims
         = kdtree_range_query_recursive r query_point e points ?nb1 dims"
        using pos False by (simp add: Let_def)
      have "\<not> ?P j" if "j \<in># tree_mset l" for j
      proof (rule far)
        show "coords (points ! j) \<noteq> None" using nn that by simp
        show "e < \<bar>the (coords query_point) ! sd - coord points j sd\<bar>"
          using lo[OF that] pos False dq by linarith
      qed
      then have "filter_mset ?P (tree_mset l) = {#}"
        by simp
      then show ?thesis unfolding res by (simp add: R)
    qed
  qed
qed

lemma range_query_recursive_geometry:
  "coords qp = coords qp' \<Longrightarrow> (\<forall>j. coords (ps ! j) = coords (qs ! j)) \<Longrightarrow>
   kdtree_range_query_recursive t qp e ps acc dims
     = kdtree_range_query_recursive t qp' e qs acc dims"
proof (induction t arbitrary: acc)
  case Null
  then show ?case by simp
next
  case (Node i l r sd)
  have c: "coords (ps ! i) = coords (qs ! i)" using Node.prems(2) by simp
  note l = Node.IH(1)[OF Node.prems]
  note r = Node.IH(2)[OF Node.prems]
  show ?case
    by (simp only: kdtree_range_query_recursive.simps Let_def c Node.prems(1) l r)
qed


lemma range_query_recursive_subset:
  "mset (kdtree_range_query_recursive t qp e ps acc dims) \<subseteq># mset acc + tree_mset t"
proof (induction t arbitrary: acc)
  case Null
  then show ?case by simp
next
  case (Node i l r sd)
  let ?nb1 = "if cdbscan_euclidean_distance (coords qp) (coords (ps ! i)) dims \<le> e
              then acc @ [i] else acc"
  have nb1: "mset ?nb1 \<subseteq># mset acc + {#i#}" by simp
  have l1: "\<And>a. mset a \<subseteq># mset acc + {#i#} \<Longrightarrow>
      mset (kdtree_range_query_recursive l qp e ps a dims) \<subseteq># mset acc + {#i#} + tree_mset l"
    using Node.IH(1) by (meson subset_mset.add_right_mono subset_mset.order_trans)
  have r1: "\<And>a. mset a \<subseteq># mset acc + {#i#} \<Longrightarrow>
      mset (kdtree_range_query_recursive r qp e ps a dims) \<subseteq># mset acc + {#i#} + tree_mset r"
    using Node.IH(2) by (meson subset_mset.add_right_mono subset_mset.order_trans)
  have l2: "\<And>a. mset a \<subseteq># mset acc + {#i#} + tree_mset r \<Longrightarrow>
      mset (kdtree_range_query_recursive l qp e ps a dims)
        \<subseteq># mset acc + {#i#} + tree_mset r + tree_mset l"
    using Node.IH(1) by (meson subset_mset.add_right_mono subset_mset.order_trans)
  have r2: "\<And>a. mset a \<subseteq># mset acc + {#i#} + tree_mset l \<Longrightarrow>
      mset (kdtree_range_query_recursive r qp e ps a dims)
        \<subseteq># mset acc + {#i#} + tree_mset l + tree_mset r"
    using Node.IH(2) by (meson subset_mset.add_right_mono subset_mset.order_trans)
  have wl: "\<And>A. A \<subseteq># mset acc + {#i#} + tree_mset l \<Longrightarrow>
      A \<subseteq># mset acc + ({#i#} + tree_mset l + tree_mset r)"
    by (metis add.assoc mset_subset_eq_add_left subset_mset.order_trans)
  have wr: "\<And>A. A \<subseteq># mset acc + {#i#} + tree_mset r \<Longrightarrow>
      A \<subseteq># mset acc + ({#i#} + tree_mset l + tree_mset r)"
    by (metis add.assoc add.commute mset_subset_eq_add_left subset_mset.order_trans)
  have t1: "mset (kdtree_range_query_recursive l qp e ps ?nb1 dims)
              \<subseteq># mset acc + {#i#} + tree_mset l"
    by (rule l1[OF nb1])
  have t2: "mset (kdtree_range_query_recursive r qp e ps ?nb1 dims)
              \<subseteq># mset acc + {#i#} + tree_mset r"
    by (rule r1[OF nb1])
  have t3: "mset (kdtree_range_query_recursive r qp e ps
                   (kdtree_range_query_recursive l qp e ps ?nb1 dims) dims)
              \<subseteq># mset acc + ({#i#} + tree_mset l + tree_mset r)"
    using r2[OF t1] by (simp add: ac_simps)
  have t4: "mset (kdtree_range_query_recursive l qp e ps
                   (kdtree_range_query_recursive r qp e ps ?nb1 dims) dims)
              \<subseteq># mset acc + ({#i#} + tree_mset l + tree_mset r)"
    using l2[OF t2] by (simp add: ac_simps)
  show ?case
    using t3 t4 wl[OF t1] wr[OF t2]
    by (simp only: kdtree_range_query_recursive.simps Let_def tree_mset.simps split: if_split)
       blast
qed

lemma submultiset_distinct:
  assumes "mset xs \<subseteq># mset ys" "distinct ys"
  shows "distinct xs" "set xs \<subseteq> set ys"
proof -
  have le1: "count (mset xs) a \<le> 1" for a
  proof -
    have "count (mset ys) a \<le> 1"
      using assms(2) unfolding distinct_count_atmost_1 by simp
    with mset_subset_eq_count[OF assms(1), of a] show ?thesis by linarith
  qed
  have "count (mset xs) a = (if a \<in> set xs then 1 else 0)" for a
  proof (cases "a \<in> set xs")
    case True
    then have "0 < count (mset xs) a" by (simp add: count_greater_zero_iff)
    with le1[of a] True show ?thesis by (simp only: if_True)
  next
    case False
    then show ?thesis by (simp add: count_eq_zero_iff)
  qed
  then show "distinct xs" unfolding distinct_count_atmost_1 by blast
  show "set xs \<subseteq> set ys" using set_mset_mono[OF assms(1)] by simp
qed

section \<open>Properties of cluster expansion and of the main loop\<close>

text \<open>
  Two point arrays have the same geometry when they differ in labels only. A region
  query is well behaved relative to an array when it depends on the geometry only and
  returns distinct indices of the array.
\<close>

definition same_geometry :: "cdbscan_point list \<Rightarrow> cdbscan_point list \<Rightarrow> bool" where
  "same_geometry ps qs \<longleftrightarrow>
     length ps = length qs
     \<and> (\<forall>j. coords (ps ! j) = coords (qs ! j) \<and> dimensions (ps ! j) = dimensions (qs ! j)
            \<and> index (ps ! j) = index (qs ! j))"

definition region_ok :: "region_query \<Rightarrow> cdbscan_point list \<Rightarrow> bool" where
  "region_ok Q pts \<longleftrightarrow>
     (\<forall>qs i. same_geometry pts qs \<longrightarrow>
        Q qs i = Q pts i \<and> distinct (Q pts i) \<and> set (Q pts i) \<subseteq> {..<length pts})"

lemma same_geometry_refl [simp]: "same_geometry ps ps"
  by (simp add: same_geometry_def)

lemma same_geometry_trans: "same_geometry ps qs \<Longrightarrow> same_geometry qs rs \<Longrightarrow> same_geometry ps rs"
  by (simp add: same_geometry_def)

lemma same_geometry_sym: "same_geometry ps qs \<Longrightarrow> same_geometry qs ps"
  by (simp add: same_geometry_def)

lemma length_set_cluster_id [simp]: "length (set_cluster_id pts i c) = length pts"
  by (simp add: set_cluster_id_def)

lemma nth_set_cluster_id:
  "set_cluster_id pts i c ! j =
     (if j = i \<and> i < length pts then (pts ! i)\<lparr>cluster_id := c\<rparr> else pts ! j)"
proof (cases "i < length pts")
  case True
  then show ?thesis by (simp add: set_cluster_id_def nth_list_update)
next
  case False
  then show ?thesis by (simp add: set_cluster_id_def list_update_beyond)
qed

lemma nth_set_cluster_id_fields [simp]:
  "coords (set_cluster_id pts i c ! j) = coords (pts ! j)"
  "dimensions (set_cluster_id pts i c ! j) = dimensions (pts ! j)"
  "index (set_cluster_id pts i c ! j) = index (pts ! j)"
  by (simp_all add: nth_set_cluster_id)

lemma cluster_id_set_cluster_id:
  "i < length pts \<Longrightarrow>
   cluster_id (set_cluster_id pts i c ! j) = (if j = i then c else cluster_id (pts ! j))"
  by (simp add: set_cluster_id_def)

lemma same_geometry_set_cluster_id [simp]: "same_geometry pts (set_cluster_id pts i c)"
  by (simp add: same_geometry_def)

lemma distinct_bounded_length:
  "distinct xs \<Longrightarrow> set xs \<subseteq> {..<n} \<Longrightarrow> length xs \<le> (n::nat)"
  by (metis card_lessThan card_mono distinct_card finite_lessThan)

lemma expand_neighbors_geometry:
  "expand_neighbors cap cid nbrs pts seeds = Some (pts', seeds') \<Longrightarrow> same_geometry pts pts'"
proof (induction nbrs arbitrary: pts seeds)
  case Nil
  then show ?case by simp
next
  case (Cons j js)
  from Cons.prems obtain q sd where *: "expand_neighbors cap cid js q sd = Some (pts', seeds')"
      and q: "q = pts \<or> q = set_cluster_id pts j cid"
    by (auto split: if_splits)
  from Cons.IH[OF *] q show ?case
    using same_geometry_trans[OF same_geometry_set_cluster_id] by blast
qed

lemma expand_neighbors_labels:
  "expand_neighbors cap cid nbrs pts seeds = Some (pts', seeds') \<Longrightarrow>
   set nbrs \<subseteq> {..<length pts} \<Longrightarrow>
   cid \<noteq> CDBSCAN_UNCLASSIFIED \<Longrightarrow> cid \<noteq> CDBSCAN_NOISE \<Longrightarrow>
   cluster_id (pts' ! i) =
     (if i \<in> set nbrs \<and> (cluster_id (pts ! i) = CDBSCAN_UNCLASSIFIED
                          \<or> cluster_id (pts ! i) = CDBSCAN_NOISE)
      then cid else cluster_id (pts ! i))"
proof (induction nbrs arbitrary: pts seeds)
  case Nil
  then show ?case by simp
next
  case (Cons j js)
  have jlt: "j < length pts" and js: "set js \<subseteq> {..<length pts}" using Cons.prems(2) by auto
  show ?case
  proof (cases "cluster_id (pts ! j) = CDBSCAN_UNCLASSIFIED \<or> cluster_id (pts ! j) = CDBSCAN_NOISE")
    case False
    with Cons.prems(1) have "expand_neighbors cap cid js pts seeds = Some (pts', seeds')"
      by simp
    from Cons.IH[OF this js Cons.prems(3,4)] False show ?thesis by auto
  next
    case True
    then obtain sd where "expand_neighbors cap cid js (set_cluster_id pts j cid) sd = Some (pts', seeds')"
      using Cons.prems(1) by (auto split: if_splits)
    from Cons.IH[OF this _ Cons.prems(3,4)] js True jlt Cons.prems(3,4) show ?thesis
      by (auto simp: cluster_id_set_cluster_id)
  qed
qed

lemma expand_neighbors_seeds:
  "expand_neighbors cap cid nbrs pts seeds = Some (pts', seeds') \<Longrightarrow>
   set nbrs \<subseteq> {..<length pts} \<Longrightarrow>
   cid \<noteq> CDBSCAN_UNCLASSIFIED \<Longrightarrow>
   \<exists>ext. seeds' = seeds @ ext
      \<and> set ext = {j \<in> set nbrs. cluster_id (pts ! j) = CDBSCAN_UNCLASSIFIED}
      \<and> distinct ext"
proof (induction nbrs arbitrary: pts seeds)
  case Nil
  then show ?case by simp
next
  case (Cons j js)
  have jlt: "j < length pts" and js: "set js \<subseteq> {..<length pts}" using Cons.prems(2) by auto
  let ?q = "set_cluster_id pts j cid"
  have js': "set js \<subseteq> {..<length ?q}" using js by simp
  have labq: "\<And>i. (cluster_id (?q ! i) = CDBSCAN_UNCLASSIFIED)
                 = (i \<noteq> j \<and> cluster_id (pts ! i) = CDBSCAN_UNCLASSIFIED)"
    using jlt Cons.prems(3) by (simp add: cluster_id_set_cluster_id)
  show ?case
  proof (cases "cluster_id (pts ! j) = CDBSCAN_UNCLASSIFIED")
    case True
    with Cons.prems(1)
    have "expand_neighbors cap cid js ?q (seeds @ [j]) = Some (pts', seeds')"
      by (simp split: if_splits)
    from Cons.IH[OF this js' Cons.prems(3)]
    obtain ext where ext: "seeds' = (seeds @ [j]) @ ext"
      "set ext = {i \<in> set js. cluster_id (?q ! i) = CDBSCAN_UNCLASSIFIED}"
      "distinct ext"
      by blast
    have e2: "set ext = {i \<in> set js. i \<noteq> j \<and> cluster_id (pts ! i) = CDBSCAN_UNCLASSIFIED}"
      using ext(2) labq by simp
    have "j \<notin> set ext" using e2 by simp
    moreover have "set (j # ext) = {i \<in> set (j # js). cluster_id (pts ! i) = CDBSCAN_UNCLASSIFIED}"
      using e2 True by auto
    ultimately have "seeds' = seeds @ (j # ext) \<and>
        set (j # ext) = {i \<in> set (j # js). cluster_id (pts ! i) = CDBSCAN_UNCLASSIFIED}
        \<and> distinct (j # ext)"
      using ext(1,3) by simp
    then show ?thesis by (rule exI)
  next
    case False
    have "\<exists>ext. seeds' = seeds @ ext
      \<and> set ext = {i \<in> set js. cluster_id (pts ! i) = CDBSCAN_UNCLASSIFIED} \<and> distinct ext"
    proof (cases "cluster_id (pts ! j) = CDBSCAN_NOISE")
      case True
      with False Cons.prems(1)
      have "expand_neighbors cap cid js ?q seeds = Some (pts', seeds')" by simp
      from Cons.IH[OF this js' Cons.prems(3)]
      obtain ext where ext: "seeds' = seeds @ ext"
        "set ext = {i \<in> set js. cluster_id (?q ! i) = CDBSCAN_UNCLASSIFIED}" "distinct ext"
        by blast
      have "set ext = {i \<in> set js. cluster_id (pts ! i) = CDBSCAN_UNCLASSIFIED}"
        using ext(2) labq False by auto
      with ext(1,3) show ?thesis by blast
    next
      case n: False
      with False Cons.prems(1)
      have "expand_neighbors cap cid js pts seeds = Some (pts', seeds')" by simp
      from Cons.IH[OF this js Cons.prems(3)] show ?thesis .
    qed
    then obtain ext where ext: "seeds' = seeds @ ext"
      "set ext = {i \<in> set js. cluster_id (pts ! i) = CDBSCAN_UNCLASSIFIED}" "distinct ext"
      by blast
    have "set ext = {i \<in> set (j # js). cluster_id (pts ! i) = CDBSCAN_UNCLASSIFIED}"
      using ext(2) False by auto
    with ext(1,3) show ?thesis by blast
  qed
qed

lemma expand_neighbors_no_overflow:
  "set nbrs \<subseteq> {..<length pts} \<Longrightarrow> distinct seeds \<Longrightarrow> set seeds \<subseteq> {..<length pts} \<Longrightarrow>
   \<forall>s\<in>set seeds. cluster_id (pts ! s) \<noteq> CDBSCAN_UNCLASSIFIED \<Longrightarrow>
   cid \<noteq> CDBSCAN_UNCLASSIFIED \<Longrightarrow>
   expand_neighbors (length pts) cid nbrs pts seeds \<noteq> None"
proof (induction nbrs arbitrary: pts seeds)
  case Nil
  then show ?case by simp
next
  case (Cons j js)
  have jlt: "j < length pts" and js: "set js \<subseteq> {..<length pts}" using Cons.prems(1) by auto
  let ?pts1 = "set_cluster_id pts j cid"
  have lab1: "\<forall>s\<in>set seeds. cluster_id (?pts1 ! s) \<noteq> CDBSCAN_UNCLASSIFIED"
    using Cons.prems(4,5) jlt by (simp add: cluster_id_set_cluster_id)
  show ?case
  proof (cases "cluster_id (pts ! j) = CDBSCAN_UNCLASSIFIED")
    case True
    have jnot: "j \<notin> set seeds" using Cons.prems(4) True by auto
    have d1: "distinct (seeds @ [j])" using Cons.prems(2) jnot by simp
    have s1: "set (seeds @ [j]) \<subseteq> {..<length pts}" using Cons.prems(3) jlt by simp
    have len: "length seeds < length pts"
      using distinct_bounded_length[OF d1 s1] by simp
    have lab2: "\<forall>s\<in>set (seeds @ [j]). cluster_id (?pts1 ! s) \<noteq> CDBSCAN_UNCLASSIFIED"
      using lab1 Cons.prems(5) jlt by (simp add: cluster_id_set_cluster_id)
    from Cons.IH[of ?pts1 "seeds @ [j]"] js d1 s1 lab2 Cons.prems(5)
    have "expand_neighbors (length pts) cid js ?pts1 (seeds @ [j]) \<noteq> None" by simp
    then show ?thesis using True len by simp
  next
    case False
    from Cons.IH[of ?pts1 seeds] js Cons.prems(2,3,5) lab1
    have a: "expand_neighbors (length pts) cid js ?pts1 seeds \<noteq> None" by simp
    from Cons.IH[of pts seeds] js Cons.prems(2,3,4,5)
    have b: "expand_neighbors (length pts) cid js pts seeds \<noteq> None" by simp
    show ?thesis using False a b by simp
  qed
qed


definition seeds_ok :: "cdbscan_point list \<Rightarrow> nat list \<Rightarrow> bool" where
  "seeds_ok pts seeds \<longleftrightarrow>
     distinct seeds \<and> set seeds \<subseteq> {..<length pts}
     \<and> (\<forall>s\<in>set seeds. cluster_id (pts ! s) \<noteq> CDBSCAN_UNCLASSIFIED)"

definition label_step :: "int \<Rightarrow> cdbscan_point list \<Rightarrow> cdbscan_point list \<Rightarrow> bool" where
  "label_step cid pts pts' \<longleftrightarrow>
     (\<forall>j. cluster_id (pts' ! j) = cluster_id (pts ! j)
          \<or> ((cluster_id (pts ! j) = CDBSCAN_UNCLASSIFIED \<or> cluster_id (pts ! j) = CDBSCAN_NOISE)
              \<and> cluster_id (pts' ! j) = cid))"

lemma label_step_refl [simp]: "label_step cid pts pts"
  by (simp add: label_step_def)

lemma label_step_trans:
  "label_step cid ps qs \<Longrightarrow> label_step cid qs rs \<Longrightarrow> cid \<noteq> CDBSCAN_UNCLASSIFIED \<Longrightarrow>
   cid \<noteq> CDBSCAN_NOISE \<Longrightarrow> label_step cid ps rs"
  unfolding label_step_def by metis

lemma seeds_ok_length: "seeds_ok pts seeds \<Longrightarrow> length seeds \<le> length pts"
  by (simp add: seeds_ok_def distinct_bounded_length)

lemma expand_neighbors_seeds_ok:
  assumes res: "expand_neighbors cap cid nbrs pts seeds = Some (pts', seeds')"
    and nb: "set nbrs \<subseteq> {..<length pts}" and ok: "seeds_ok pts seeds"
    and cid: "cid \<noteq> CDBSCAN_UNCLASSIFIED" "cid \<noteq> CDBSCAN_NOISE"
  shows "seeds_ok pts' seeds'" and "label_step cid pts pts'"
proof -
  from expand_neighbors_seeds[OF res nb cid(1)]
  obtain ext where ext: "seeds' = seeds @ ext"
    "set ext = {j \<in> set nbrs. cluster_id (pts ! j) = CDBSCAN_UNCLASSIFIED}" "distinct ext"
    by blast
  have geo: "same_geometry pts pts'" by (rule expand_neighbors_geometry[OF res])
  then have len: "length pts' = length pts" by (simp add: same_geometry_def)
  have lab: "\<And>i. cluster_id (pts' ! i) =
     (if i \<in> set nbrs \<and> (cluster_id (pts ! i) = CDBSCAN_UNCLASSIFIED
                          \<or> cluster_id (pts ! i) = CDBSCAN_NOISE)
      then cid else cluster_id (pts ! i))"
    by (rule expand_neighbors_labels[OF res nb cid])
  have disj: "set seeds \<inter> set ext = {}"
    using ok ext(2) by (auto simp: seeds_ok_def)
  have "distinct seeds'" using ok ext(1,3) disj by (simp add: seeds_ok_def)
  moreover have "set seeds' \<subseteq> {..<length pts'}"
    using ok ext(1,2) nb len by (auto simp: seeds_ok_def)
  moreover have "\<forall>s\<in>set seeds'. cluster_id (pts' ! s) \<noteq> CDBSCAN_UNCLASSIFIED"
  proof
    fix s assume "s \<in> set seeds'"
    then consider "s \<in> set seeds" | "s \<in> set ext" using ext(1) by auto
    then show "cluster_id (pts' ! s) \<noteq> CDBSCAN_UNCLASSIFIED"
    proof cases
      case 1
      then have "cluster_id (pts ! s) \<noteq> CDBSCAN_UNCLASSIFIED" using ok by (simp add: seeds_ok_def)
      then show ?thesis using lab[of s] cid by (simp split: if_splits)
    next
      case 2
      then show ?thesis using lab[of s] ext(2) cid by simp
    qed
  qed
  ultimately show "seeds_ok pts' seeds'" by (simp add: seeds_ok_def)
  show "label_step cid pts pts'"
    unfolding label_step_def using lab by simp
qed

lemma region_okD:
  "region_ok Q base \<Longrightarrow> same_geometry base qs \<Longrightarrow>
   Q qs i = Q base i \<and> distinct (Q base i) \<and> set (Q base i) \<subseteq> {..<length base}"
  unfolding region_ok_def by blast

lemma region_ok_query:
  assumes "region_ok Q base" "same_geometry base pts"
  shows "Q pts i = Q base i" "distinct (Q pts i)" "set (Q pts i) \<subseteq> {..<length pts}"
    "buffer_fill (length pts) (Q pts i) = Some (Q pts i)"
proof -
  note d = region_okD[OF assms, of i]
  from assms(2) have len: "length base = length pts" by (simp add: same_geometry_def)
  show q: "Q pts i = Q base i" using d by blast
  show d1: "distinct (Q pts i)" using d by metis
  show s: "set (Q pts i) \<subseteq> {..<length pts}" using d len by metis
  from distinct_bounded_length[OF d1 s]
  show "buffer_fill (length pts) (Q pts i) = Some (Q pts i)" by (simp add: buffer_fill_def)
qed

lemma expand_seeds_spec:
  "region_ok Q base \<Longrightarrow> cid \<noteq> CDBSCAN_UNCLASSIFIED \<Longrightarrow> cid \<noteq> CDBSCAN_NOISE \<Longrightarrow>
   cap = length base \<Longrightarrow> same_geometry base pts \<Longrightarrow> seeds_ok pts seeds \<Longrightarrow>
     \<exists>pts' seeds'. expand_seeds Q cap m cid pts seeds cur = Some (pts', seeds')
        \<and> same_geometry base pts' \<and> seeds_ok pts' seeds' \<and> label_step cid pts pts'"
proof (induction Q cap m cid pts seeds cur rule: expand_seeds.induct)
  case (1 query capacity minpts cid points seeds current_seed)
  note Q = "1.prems"(1)
  note cid = "1.prems"(2,3)
  note cap = "1.prems"(4)
  note geo0 = "1.prems"(5)
  note ok0 = "1.prems"(6)
  have len: "length points = capacity" using cap geo0 by (simp add: same_geometry_def)
  show ?case
  proof (cases "current_seed < length seeds")
    case False
    then show ?thesis using geo0 ok0 by (subst expand_seeds.simps) simp
  next
    case True
    let ?nb = "query points (seeds ! current_seed)"
    have bf: "buffer_fill capacity ?nb = Some ?nb"
      using region_ok_query(4)[OF Q geo0] len by simp
    have nb: "set ?nb \<subseteq> {..<length points}"
      by (rule region_ok_query(3)[OF Q geo0])
    show ?thesis
    proof (cases "int (length ?nb) \<ge> minpts")
      case False
      from "1.IH"(2)[OF True bf False Q cid cap geo0 ok0]
      show ?thesis using True bf False by (subst expand_seeds.simps) simp
    next
      case core: True
      have "expand_neighbors (length points) cid ?nb points seeds \<noteq> None"
        using expand_neighbors_no_overflow[OF nb] ok0 cid(1)
        by (simp add: seeds_ok_def)
      then obtain points' seeds' where
        en: "expand_neighbors capacity cid ?nb points seeds = Some (points', seeds')"
        using len by auto
      have geo: "same_geometry base points'"
        using expand_neighbors_geometry[OF en] geo0 same_geometry_trans by blast
      have ok: "seeds_ok points' seeds'" and st: "label_step cid points points'"
        using expand_neighbors_seeds_ok[OF en nb ok0 cid] by simp_all
      from "1.IH"(1)[OF True bf core en refl Q cid cap geo ok]
      obtain pts2 seeds2 where r:
        "expand_seeds query capacity minpts cid points' seeds' (current_seed + 1) = Some (pts2, seeds2)"
        "same_geometry base pts2" "seeds_ok pts2 seeds2" "label_step cid points' pts2"
        by blast
      have "expand_seeds query capacity minpts cid points seeds current_seed = Some (pts2, seeds2)"
        using True bf core en r(1) by (subst expand_seeds.simps) simp
      moreover have "label_step cid points pts2"
        using label_step_trans[OF st r(4) cid] .
      ultimately show ?thesis using r(2,3) by blast
    qed
  qed
qed


lemma butlast_update_last:
  assumes "distinct xs" "i < length xs"
  shows "set (butlast (xs[i := last xs])) = set xs - {xs ! i}"
    and "distinct (butlast (xs[i := last xs]))"
proof -
  from assms(2) obtain ys l where xs: "xs = ys @ [l]"
    by (cases xs rule: rev_cases) auto
  have d: "distinct ys" "l \<notin> set ys" using assms(1) xs by auto
  have "set (butlast (xs[i := last xs])) = set xs - {xs ! i}
        \<and> distinct (butlast (xs[i := last xs]))"
  proof (cases "i < length ys")
    case True
    have b: "butlast (xs[i := last xs]) = ys[i := l]"
      using True xs by (simp add: list_update_append)
    have "set (ys[i := l]) = insert l (set ys - {ys ! i})"
      using d(1) True by (rule set_update_distinct)
    moreover have "ys ! i \<in> set ys" using True by simp
    moreover have "distinct (ys[i := l])"
      using d True by (simp add: distinct_list_update)
    ultimately show ?thesis using b xs True d by (auto simp: nth_append)
  next
    case False
    then have "i = length ys" using assms(2) xs by simp
    then show ?thesis using xs d by simp
  qed
  then show "set (butlast (xs[i := last xs])) = set xs - {xs ! i}"
    and "distinct (butlast (xs[i := last xs]))" by simp_all
qed

lemma remove_core_point_spec:
  "distinct seeds \<Longrightarrow> set is \<subseteq> {..<length seeds} \<Longrightarrow>
   distinct (remove_core_point seeds p is)
   \<and> set (remove_core_point seeds p is) =
       (if p \<in> (\<lambda>i. seeds ! i) ` set is then set seeds - {p} else set seeds)"
proof (induction "is")
  case Nil
  then show ?case by simp
next
  case (Cons i rest)
  show ?case
  proof (cases "seeds ! i = p")
    case True
    have i: "i < length seeds" using Cons.prems(2) by simp
    from butlast_update_last[OF Cons.prems(1) i] True show ?thesis by simp
  next
    case False
    with Cons show ?thesis by auto
  qed
qed

lemma remove_core_point_all:
  assumes "distinct seeds"
  shows "distinct (remove_core_point seeds p [0..<length seeds])"
    and "set (remove_core_point seeds p [0..<length seeds]) = set seeds - {p}"
proof -
  have img: "(\<lambda>i. seeds ! i) ` set [0..<length seeds] = set seeds"
    by (auto simp: in_set_conv_nth)
  have sub: "set [0..<length seeds] \<subseteq> {..<length seeds}" by auto
  note r = remove_core_point_spec[OF assms sub, of p]
  show "distinct (remove_core_point seeds p [0..<length seeds])"
    using r by blast
  have "set (remove_core_point seeds p [0..<length seeds]) =
       (if p \<in> set seeds then set seeds - {p} else set seeds)"
    using r img by simp
  then show "set (remove_core_point seeds p [0..<length seeds]) = set seeds - {p}"
    by auto
qed

lemma fold_set_cluster_id:
  "set seeds \<subseteq> {..<length pts} \<Longrightarrow>
   same_geometry pts (fold (\<lambda>s ps. set_cluster_id ps s cid) seeds pts)
   \<and> (\<forall>j. cluster_id (fold (\<lambda>s ps. set_cluster_id ps s cid) seeds pts ! j) =
            (if j \<in> set seeds then cid else cluster_id (pts ! j)))"
proof (induction seeds arbitrary: pts)
  case Nil
  then show ?case by simp
next
  case (Cons s seeds)
  have s: "s < length pts" and r: "set seeds \<subseteq> {..<length (set_cluster_id pts s cid)}"
    using Cons.prems by auto
  from Cons.IH[OF r] have ih:
    "same_geometry (set_cluster_id pts s cid) (fold (\<lambda>s ps. set_cluster_id ps s cid) seeds (set_cluster_id pts s cid))"
    "\<And>j. cluster_id (fold (\<lambda>s ps. set_cluster_id ps s cid) seeds (set_cluster_id pts s cid) ! j) =
            (if j \<in> set seeds then cid else cluster_id (set_cluster_id pts s cid ! j))"
    by simp_all
  have "same_geometry pts (fold (\<lambda>s ps. set_cluster_id ps s cid) (s # seeds) pts)"
    using same_geometry_trans[OF same_geometry_set_cluster_id ih(1)] by simp
  moreover have "\<forall>j. cluster_id (fold (\<lambda>s ps. set_cluster_id ps s cid) (s # seeds) pts ! j) =
            (if j \<in> set (s # seeds) then cid else cluster_id (pts ! j))"
    using ih(2) s by (simp add: cluster_id_set_cluster_id)
  ultimately show ?case by blast
qed

text \<open>The outcome of an expansion, relative to the labels before it.\<close>

definition expanded_from ::
  "int \<Rightarrow> nat list \<Rightarrow> cdbscan_point list \<Rightarrow> cdbscan_point list \<Rightarrow> bool" where
  "expanded_from cid seeds pts pts' \<longleftrightarrow>
     (\<forall>j. if j \<in> set seeds then cluster_id (pts' ! j) = cid
          else cluster_id (pts' ! j) = cluster_id (pts ! j)
               \<or> ((cluster_id (pts ! j) = CDBSCAN_UNCLASSIFIED
                    \<or> cluster_id (pts ! j) = CDBSCAN_NOISE) \<and> cluster_id (pts' ! j) = cid))"

lemma expand_cluster_with_spec:
  assumes Q: "region_ok Q base" and cid: "cid \<noteq> CDBSCAN_UNCLASSIFIED" "cid \<noteq> CDBSCAN_NOISE"
    and n: "nat n = length base" and geo: "same_geometry base pts"
  shows "\<exists>r pts' seeds'. expand_cluster_with Q pts n p cid params = Some (r, pts', seeds')
     \<and> same_geometry base pts' \<and> length seeds' \<le> length base \<and> distinct seeds'
     \<and> (if int (length (Q base p)) < min_pts params
         then r = 0 \<and> pts' = set_cluster_id pts p CDBSCAN_NOISE
         else r = 1 \<and> expanded_from cid (Q base p) pts pts')"
proof -
  have len: "length pts = length base" using geo by (simp add: same_geometry_def)
  have q: "Q pts p = Q base p" and d: "distinct (Q pts p)"
    and sub: "set (Q pts p) \<subseteq> {..<length pts}"
    and bf: "buffer_fill (nat n) (Q pts p) = Some (Q pts p)"
    using region_ok_query[OF Q geo, of p] n len by simp_all
  show ?thesis
  proof (cases "int (length (Q base p)) < min_pts params")
    case True
    have "length (Q pts p) \<le> length base"
      using distinct_bounded_length[OF d sub] len by simp
    moreover have "same_geometry base (set_cluster_id pts p CDBSCAN_NOISE)"
      using same_geometry_trans[OF geo same_geometry_set_cluster_id] .
    ultimately show ?thesis using True bf q d by (simp add: expand_cluster_with_def)
  next
    case False
    let ?seeds = "Q pts p"
    let ?p1 = "fold (\<lambda>s ps. set_cluster_id ps s cid) ?seeds pts"
    let ?s1 = "remove_core_point ?seeds p [0..<length ?seeds]"
    from fold_set_cluster_id[OF sub, of cid]
    have g1: "same_geometry pts ?p1"
      and l1: "\<And>j. cluster_id (?p1 ! j) = (if j \<in> set ?seeds then cid else cluster_id (pts ! j))"
      by simp_all
    have len1: "length ?p1 = length pts" using g1 by (simp add: same_geometry_def)
    have ok1: "seeds_ok ?p1 ?s1"
      using remove_core_point_all[OF d, of p] sub l1 cid len1 by (auto simp: seeds_ok_def)
    have gb1: "same_geometry base ?p1" using same_geometry_trans[OF geo g1] .
    from expand_seeds_spec[OF Q cid n gb1 ok1, of "min_pts params" 0]
    obtain pts2 seeds2 where r:
      "expand_seeds Q (nat n) (min_pts params) cid ?p1 ?s1 0 = Some (pts2, seeds2)"
      "same_geometry base pts2" "seeds_ok pts2 seeds2" "label_step cid ?p1 pts2"
      by blast
    have e: "expand_cluster_with Q pts n p cid params = Some (1, pts2, seeds2)"
      using False bf q r(1) by (simp add: expand_cluster_with_def Let_def)
    have l2: "length seeds2 \<le> length base"
      using seeds_ok_length[OF r(3)] r(2) by (simp add: same_geometry_def)
    have "expanded_from cid (Q base p) pts pts2"
      unfolding expanded_from_def
    proof
      fix j
      from r(4) have "cluster_id (pts2 ! j) = cluster_id (?p1 ! j)
          \<or> ((cluster_id (?p1 ! j) = CDBSCAN_UNCLASSIFIED \<or> cluster_id (?p1 ! j) = CDBSCAN_NOISE)
              \<and> cluster_id (pts2 ! j) = cid)"
        unfolding label_step_def by blast
      then show "if j \<in> set (Q base p) then cluster_id (pts2 ! j) = cid
          else cluster_id (pts2 ! j) = cluster_id (pts ! j)
               \<or> ((cluster_id (pts ! j) = CDBSCAN_UNCLASSIFIED
                    \<or> cluster_id (pts ! j) = CDBSCAN_NOISE) \<and> cluster_id (pts2 ! j) = cid)"
        using l1[of j] q by auto
    qed
    moreover have "distinct seeds2" using r(3) by (simp add: seeds_ok_def)
    ultimately show ?thesis using e r(2) l2 False by simp
  qed
qed


text \<open>The region query that \<open>cluster_loop\<close> uses, as a function of the tree pointer.\<close>

definition region_of :: "kdtree_t option \<Rightarrow> cdbscan_params \<Rightarrow> int \<Rightarrow> region_query" where
  "region_of tree params n =
     (\<lambda>pts i. case tree of
                 Some t \<Rightarrow> kdtree_range_query (Some t) pts i (eps params)
               | None \<Rightarrow> cdbscan_region_query_custom (Some pts) n (int i) params)"

lemma expand_cluster_region_of:
  "(case tree of
      Some t \<Rightarrow> expand_cluster_kdtree points n i cid params t
    | None \<Rightarrow> expand_cluster points n i cid params)
   = expand_cluster_with (region_of tree params n) points n i cid params"
  by (cases tree) (simp_all add: expand_cluster_def expand_cluster_kdtree_def region_of_def)

lemma cluster_loop_unfold:
  "cluster_loop tree params n i cid points =
     (if int i < n then
        (if cluster_id (points ! i) \<noteq> CDBSCAN_UNCLASSIFIED
         then cluster_loop tree params n (i + 1) cid points
         else
           (case buffer_fill (nat n) (region_of tree params n points i) of
              None \<Rightarrow> None
            | Some neighbors \<Rightarrow>
                if int (length neighbors) < min_pts params
                then cluster_loop tree params n (i + 1) cid
                       (set_cluster_id points i CDBSCAN_NOISE)
                else
                  (case expand_cluster_with (region_of tree params n) points n i cid params of
                     None \<Rightarrow> None
                   | Some (expanded, points', seeds) \<Rightarrow>
                       cluster_loop tree params n (i + 1)
                         (if expanded \<noteq> 0 then cid + 1 else cid) points')))
      else Some (cid, points))"
  by (subst cluster_loop.simps, subst expand_cluster_region_of)
     (simp add: region_of_def)

lemma cluster_loop_rule:
  assumes Q: "region_ok (region_of tree params n) base" and n: "nat n = length base"
    and skip: "\<And>i cid pts. I i cid pts \<Longrightarrow> i < length base \<Longrightarrow>
                 cluster_id (pts ! i) \<noteq> CDBSCAN_UNCLASSIFIED \<Longrightarrow> I (i + 1) cid pts"
    and noise: "\<And>i cid pts. I i cid pts \<Longrightarrow> same_geometry base pts \<Longrightarrow> i < length base \<Longrightarrow>
                 cluster_id (pts ! i) = CDBSCAN_UNCLASSIFIED \<Longrightarrow>
                 int (length (region_of tree params n base i)) < min_pts params \<Longrightarrow>
                 I (i + 1) cid (set_cluster_id pts i CDBSCAN_NOISE)"
    and expand: "\<And>i cid pts pts' seeds'. I i cid pts \<Longrightarrow> same_geometry base pts \<Longrightarrow> 0 \<le> cid \<Longrightarrow>
                 i < length base \<Longrightarrow> cluster_id (pts ! i) = CDBSCAN_UNCLASSIFIED \<Longrightarrow>
                 \<not> int (length (region_of tree params n base i)) < min_pts params \<Longrightarrow>
                 expand_cluster_with (region_of tree params n) pts n i cid params
                   = Some (1, pts', seeds') \<Longrightarrow>
                 same_geometry base pts' \<Longrightarrow>
                 expanded_from cid (region_of tree params n base i) pts pts' \<Longrightarrow>
                 I (i + 1) (cid + 1) pts'"
  shows "I i cid pts \<Longrightarrow> same_geometry base pts \<Longrightarrow> 0 \<le> cid \<Longrightarrow> i \<le> length base \<Longrightarrow>
     \<exists>c pts'. cluster_loop tree params n i cid pts = Some (c, pts')
        \<and> same_geometry base pts' \<and> cid \<le> c \<and> I (length base) c pts'"
proof (induction "length base - i" arbitrary: i cid pts)
  case 0
  then have "i = length base" by simp
  then have "\<not> int i < n" using n by linarith
  then have "cluster_loop tree params n i cid pts = Some (cid, pts)"
    by (subst cluster_loop_unfold) simp
  with 0 \<open>i = length base\<close> show ?case by simp
next
  case (Suc k)
  let ?Q = "region_of tree params n"
  have i: "i < length base" using Suc.hyps(2) by simp
  then have lt: "int i < n" using n by linarith
  have k: "k = length base - (i + 1)" and i1: "i + 1 \<le> length base"
    using Suc.hyps(2) by simp_all
  note I = Suc.prems(1) and geo = Suc.prems(2) and c0 = Suc.prems(3)
  show ?case
  proof (cases "cluster_id (pts ! i) \<noteq> CDBSCAN_UNCLASSIFIED")
    case True
    from Suc.hyps(1)[OF k skip[OF I i True] geo c0 i1]
    show ?thesis using lt True by (subst cluster_loop_unfold) simp
  next
    case False
    then have U: "cluster_id (pts ! i) = CDBSCAN_UNCLASSIFIED" by simp
    have len: "length pts = length base" using geo by (simp add: same_geometry_def)
    have q: "?Q pts i = ?Q base i"
      and bf: "buffer_fill (nat n) (?Q pts i) = Some (?Q pts i)"
      using region_ok_query[OF Q geo, of i] n len by simp_all
    show ?thesis
    proof (cases "int (length (?Q base i)) < min_pts params")
      case True
      have g: "same_geometry base (set_cluster_id pts i CDBSCAN_NOISE)"
        using same_geometry_trans[OF geo same_geometry_set_cluster_id] .
      from Suc.hyps(1)[OF k noise[OF I geo i U True] g c0 i1]
      show ?thesis using lt U bf q True by (subst cluster_loop_unfold) simp
    next
      case False
      have cid: "cid \<noteq> CDBSCAN_UNCLASSIFIED" "cid \<noteq> CDBSCAN_NOISE"
        using c0 by (simp_all add: CDBSCAN_UNCLASSIFIED_def CDBSCAN_NOISE_def)
      from expand_cluster_with_spec[OF Q cid n geo, of i params] False
      obtain pts' seeds' where e:
        "expand_cluster_with ?Q pts n i cid params = Some (1, pts', seeds')"
        "same_geometry base pts'" "expanded_from cid (?Q base i) pts pts'"
        by auto
      have c1: "0 \<le> cid + 1" using c0 by simp
      from Suc.hyps(1)[OF k expand[OF I geo c0 i U False e] e(2) c1 i1]
      obtain c pts2 where r: "cluster_loop tree params n (i + 1) (cid + 1) pts' = Some (c, pts2)"
        "same_geometry base pts2" "cid + 1 \<le> c" "I (length base) c pts2"
        by blast
      have "cluster_loop tree params n i cid pts = Some (c, pts2)"
        using lt U bf q False e(1) r(1) by (subst cluster_loop_unfold) simp
      with r show ?thesis by simp
    qed
  qed
qed

subsection \<open>The moments of the main loop\<close>

lemma cluster_loop_step:
  "cluster_loop tree params n i cid points =
     (if int i < n then
        (case cluster_step tree params n i cid points of
           None \<Rightarrow> None
         | Some (cid', points') \<Rightarrow> cluster_loop tree params n (i + 1) cid' points')
      else Some (cid, points))"
  by (subst cluster_loop.simps) (simp add: cluster_step_def split: option.splits)

lemma cluster_loop_steps:
  "cluster_loop tree params n i cid points = cluster_steps tree params n (nat n - i) i cid points"
proof (induction "nat n - i" arbitrary: i cid points)
  case 0
  then have "\<not> int i < n" by linarith
  with 0 show ?case by (subst cluster_loop_step) simp
next
  case (Suc k)
  then have lt: "int i < n" and k: "k = nat n - (i + 1)" by linarith+
  have s: "nat n - i = Suc (nat n - (i + 1))" using Suc.hyps(2) by linarith
  show ?case
    unfolding s cluster_steps.simps
    using lt Suc.hyps(1)[OF k]
    by (subst cluster_loop_step) (simp split: option.splits)
qed

lemma cluster_steps_add:
  "cluster_steps tree params n (k1 + k) i cid points =
     (case cluster_steps tree params n k1 i cid points of
        None \<Rightarrow> None
      | Some (c1, ps1) \<Rightarrow> cluster_steps tree params n k (i + k1) c1 ps1)"
  by (induction k1 arbitrary: i cid points) (simp_all split: option.splits)

lemma cluster_step_unfold:
  "cluster_step tree params n i cid points =
     (if cluster_id (points ! i) \<noteq> CDBSCAN_UNCLASSIFIED then Some (cid, points)
      else
        (case buffer_fill (nat n) (region_of tree params n points i) of
           None \<Rightarrow> None
         | Some neighbors \<Rightarrow>
             if int (length neighbors) < min_pts params
             then Some (cid, set_cluster_id points i CDBSCAN_NOISE)
             else
               (case expand_cluster_with (region_of tree params n) points n i cid params of
                  None \<Rightarrow> None
                | Some (expanded, points', seeds) \<Rightarrow>
                    Some (if expanded \<noteq> 0 then cid + 1 else cid, points'))))"
  unfolding cluster_step_def expand_cluster_region_of
  by (simp add: region_of_def)

lemma cluster_step_spec:
  assumes Q: "region_ok (region_of tree params n) base" and n: "nat n = length base"
    and geo: "same_geometry base qs" and c0: "0 \<le> c" and i: "i < length base"
  shows "\<exists>c' qs'. cluster_step tree params n i c qs = Some (c', qs') \<and> same_geometry base qs'
     \<and> region_of tree params n qs i = region_of tree params n base i
     \<and> (if cluster_id (qs ! i) \<noteq> CDBSCAN_UNCLASSIFIED then c' = c \<and> qs' = qs
         else if int (length (region_of tree params n base i)) < min_pts params
              then c' = c \<and> qs' = set_cluster_id qs i CDBSCAN_NOISE
              else c' = c + 1 \<and> expanded_from c (region_of tree params n base i) qs qs')"
proof -
  let ?Q = "region_of tree params n"
  have len: "length qs = length base" using geo by (simp add: same_geometry_def)
  have q: "?Q qs i = ?Q base i"
    and bf: "buffer_fill (nat n) (?Q qs i) = Some (?Q qs i)"
    using region_ok_query[OF Q geo, of i] n len by simp_all
  show ?thesis
  proof (cases "cluster_id (qs ! i) \<noteq> CDBSCAN_UNCLASSIFIED")
    case True
    then show ?thesis using geo q by (subst cluster_step_unfold) simp
  next
    case False
    then have U: "cluster_id (qs ! i) = CDBSCAN_UNCLASSIFIED" by simp
    show ?thesis
    proof (cases "int (length (?Q base i)) < min_pts params")
      case True
      have g: "same_geometry base (set_cluster_id qs i CDBSCAN_NOISE)"
        using same_geometry_trans[OF geo same_geometry_set_cluster_id] .
      show ?thesis using U bf q True g by (subst cluster_step_unfold) simp
    next
      case core: False
      have cid: "c \<noteq> CDBSCAN_UNCLASSIFIED" "c \<noteq> CDBSCAN_NOISE"
        using c0 by (simp_all add: CDBSCAN_UNCLASSIFIED_def CDBSCAN_NOISE_def)
      from expand_cluster_with_spec[OF Q cid n geo, of i params] core
      obtain pts' seeds' where e:
        "expand_cluster_with ?Q qs n i c params = Some (1, pts', seeds')"
        "same_geometry base pts'" "expanded_from c (?Q base i) qs pts'"
        by auto
      show ?thesis using U bf q core e by (subst cluster_step_unfold) simp
    qed
  qed
qed

section \<open>Region queries: brute force and KD-tree\<close>

lemma validate_data_unfold:
  assumes "cdbscan_validate_data (Some pts) n"
  shows "(if n \<le> 0 then False
          else (let dims = dimensions (pts ! 0)
             in if dims \<le> 0 then False
                else list_all (\<lambda>i. coords (pts ! i) \<noteq> None \<and> dimensions (pts ! i) = dims)
                       [0..<nat n]))"
  using assms unfolding cdbscan_validate_data_def by (simp only: option.case)

lemma validate_dataD:
  assumes "cdbscan_validate_data (Some pts) n"
  shows "0 < n" "0 < dimensions (pts ! 0)"
    and "\<And>i. i < nat n \<Longrightarrow> coords (pts ! i) \<noteq> None \<and> dimensions (pts ! i) = dimensions (pts ! 0)"
proof -
  note u = validate_data_unfold[OF assms]
  show n: "0 < n"
    using u by (cases "n \<le> 0") (simp_all only: if_True if_False not_le)
  show d: "0 < dimensions (pts ! 0)"
    using u n
    by (cases "dimensions (pts ! 0) \<le> 0")
       (simp_all only: Let_def if_True if_False not_le split: if_splits)
  have "list_all (\<lambda>i. coords (pts ! i) \<noteq> None \<and> dimensions (pts ! i) = dimensions (pts ! 0))
          [0..<nat n]"
    using u n d by (simp only: Let_def not_le[symmetric] if_False)
  then have all: "\<forall>i\<in>set [0..<nat n]. coords (pts ! i) \<noteq> None
                \<and> dimensions (pts ! i) = dimensions (pts ! 0)"
    unfolding list_all_iff .
  show "coords (pts ! i) \<noteq> None \<and> dimensions (pts ! i) = dimensions (pts ! 0)"
    if "i < nat n" for i
  proof -
    from that have "i \<in> set [0..<nat n]" by simp
    with all show ?thesis by (rule bspec)
  qed
qed

lemma alloc_served: "(\<forall>b\<in>set heap. b) \<Longrightarrow> fst (alloc heap) \<and> (\<forall>b\<in>set (snd (alloc heap)). b)"
  by (cases heap) auto

lemma kdtree_build_tree:
  assumes b: "kdtree_build heap (Some pts) n = (Some t, heap')" and d: "0 < dimensions (pts ! 0)"
  shows "tree_dimensions t = dimensions (pts ! 0)"
    and "kd_inv pts (nat (tree_dimensions t)) (root t)"
    and "tree_mset (root t) \<subseteq># mset [0..<nat n]"
    and "(\<forall>b\<in>set heap. b) \<Longrightarrow> tree_mset (root t) = mset [0..<nat n]"
proof -
  obtain ok1 h1 where a1: "alloc heap = (ok1, h1)" by (cases "alloc heap")
  obtain ok2 h2 where a2: "alloc h1 = (ok2, h2)" by (cases "alloc h1")
  let ?dims = "dimensions (pts ! 0)"
  let ?B = "kdtree_build_recursive h2 [0..<nat n] pts 0 ?dims"
  from b a1 a2 have n: "0 < n" and ok: "ok1" "ok2"
    by (auto simp: kdtree_build_def Let_def split: if_splits bool.splits)
  from b a1 a2 n ok have t: "t = \<lparr>root = fst ?B, tree_num_points = n, tree_dimensions = ?dims\<rparr>"
    by (auto simp: kdtree_build_def Let_def split: prod.splits)
  note inv = kdtree_build_recursive_inv[OF d, of pts h2 "[0..<nat n]" 0]
  show "tree_dimensions t = ?dims" using t by simp
  show "kd_inv pts (nat (tree_dimensions t)) (root t)" using inv t by simp
  show "tree_mset (root t) \<subseteq># mset [0..<nat n]" using inv t by simp
  show "tree_mset (root t) = mset [0..<nat n]" if "\<forall>b\<in>set heap. b"
  proof -
    from alloc_served[OF that] a1 have "\<forall>b\<in>set h1. b" by auto
    from alloc_served[OF this] a2 have "\<forall>b\<in>set h2. b" by auto
    with inv t show ?thesis by simp
  qed
qed

lemma kdtree_build_served:
  assumes "\<forall>b\<in>set heap. b" "0 < n"
  shows "\<exists>t. fst (kdtree_build heap (Some pts) n) = Some t"
proof -
  obtain ok1 h1 where a1: "alloc heap = (ok1, h1)" by (cases "alloc heap")
  obtain ok2 h2 where a2: "alloc h1 = (ok2, h2)" by (cases "alloc h1")
  from alloc_served[OF assms(1)] a1 have o1: ok1 and s1: "\<forall>b\<in>set h1. b" by auto
  from alloc_served[OF s1] a2 have o2: ok2 by auto
  show ?thesis using assms(2) a1 a2 o1 o2
    by (simp add: kdtree_build_def Let_def split: prod.splits)
qed

lemma region_ok_brute:
  assumes "nat n = length base"
  shows "region_ok (\<lambda>pts i. cdbscan_region_query_custom (Some pts) n (int i) params) base"
  unfolding region_ok_def
proof (intro allI impI conjI)
  fix qs i assume g: "same_geometry base qs"
  then have c: "\<And>j. coords (qs ! j) = coords (base ! j)"
    and dm: "\<And>j. dimensions (qs ! j) = dimensions (base ! j)"
    by (simp_all add: same_geometry_def)
  show "cdbscan_region_query_custom (Some qs) n (int i) params
        = cdbscan_region_query_custom (Some base) n (int i) params"
    by (simp add: cdbscan_region_query_custom_def Let_def c dm)
  show "distinct (cdbscan_region_query_custom (Some base) n (int i) params)"
    by (simp add: cdbscan_region_query_custom_def Let_def)
  show "set (cdbscan_region_query_custom (Some base) n (int i) params) \<subseteq> {..<length base}"
    using assms by (auto simp: cdbscan_region_query_custom_def Let_def)
qed

lemma region_ok_kdtree:
  assumes "tree_mset (root t) \<subseteq># mset [0..<length base]"
  shows "region_ok (\<lambda>pts i. kdtree_range_query (Some t) pts i e) base"
  unfolding region_ok_def
proof (intro allI impI conjI)
  fix qs i assume g: "same_geometry base qs"
  then have c: "\<forall>j. coords (qs ! j) = coords (base ! j)"
    by (simp add: same_geometry_def)
  then have ci: "coords (qs ! i) = coords (base ! i)" by simp
  show "kdtree_range_query (Some t) qs i e = kdtree_range_query (Some t) base i e"
    using range_query_recursive_geometry[OF ci c]
    by (simp add: kdtree_range_query_def Let_def)
  let ?r = "kdtree_range_query_recursive (root t) (base ! i) e base [] (tree_dimensions t)"
  have "mset ?r \<subseteq># mset [0..<length base]"
    using range_query_recursive_subset[of "root t" "base ! i" e base "[]" "tree_dimensions t"] assms
    by (simp add: subset_mset.order_trans)
  then have "mset (kdtree_range_query (Some t) base i e) \<subseteq># mset [0..<length base]"
    by (simp add: kdtree_range_query_def Let_def)
  from submultiset_distinct[OF this]
  show "distinct (kdtree_range_query (Some t) base i e)"
    and "set (kdtree_range_query (Some t) base i e) \<subseteq> {..<length base}"
    by auto
qed

lemma kdtree_range_query_eq_filter:
  assumes valid: "cdbscan_validate_data (Some pts) n"
    and dims: "tree_dimensions t = dimensions (pts ! 0)"
    and inv: "kd_inv pts (nat (tree_dimensions t)) (root t)"
    and full: "tree_mset (root t) = mset [0..<nat n]"
    and i: "i < nat n"
  shows "kdtree_range_query (Some t) pts i e
         = filter (\<lambda>j. cdbscan_euclidean_distance (coords (pts ! i)) (coords (pts ! j))
                          (dimensions (pts ! 0)) \<le> e) [0..<nat n]"
proof -
  let ?P = "\<lambda>j. cdbscan_euclidean_distance (coords (pts ! i)) (coords (pts ! j))
                   (dimensions (pts ! 0)) \<le> e"
  note v = validate_dataD[OF valid]
  from v(3)[OF i] obtain qs where qs: "coords (pts ! i) = Some qs" by auto
  have nn: "\<forall>j. j \<in># tree_mset (root t) \<longrightarrow> coords (pts ! j) \<noteq> None"
    using full v(3) by simp
  have "mset (kdtree_range_query_recursive (root t) (pts ! i) e pts [] (tree_dimensions t))
        = filter_mset ?P (mset [0..<nat n])"
    using range_query_recursive_mset[OF qs inv nn, of e "[]"] full dims by simp
  then have ms: "mset (filter ?P [0..<nat n])
        = mset (kdtree_range_query_recursive (root t) (pts ! i) e pts [] (tree_dimensions t))"
    by simp
  have "sort (kdtree_range_query_recursive (root t) (pts ! i) e pts [] (tree_dimensions t))
        = filter ?P [0..<nat n]"
    by (rule properties_for_sort[OF ms]) (simp add: sorted_wrt_filter)
  moreover have "filter ?P [0..<nat n] = []" if "root t = Null"
  proof -
    from that full have "mset [0..<nat n] = {#}" by simp
    then have "[0..<nat n] = []" by (simp only: mset_zero_iff)
    then show ?thesis by simp
  qed
  ultimately show ?thesis
    by (simp add: kdtree_range_query_def Let_def)
qed

lemma region_query_eq_filter:
  assumes valid: "cdbscan_validate_data (Some pts) n" and i: "i < nat n"
  shows "cdbscan_region_query (Some pts) n (int i) e
         = filter (\<lambda>j. cdbscan_euclidean_distance (coords (pts ! i)) (coords (pts ! j))
                          (dimensions (pts ! 0)) \<le> e) [0..<nat n]"
    and "dist_type params = CDBSCAN_DIST_EUCLIDEAN \<Longrightarrow>
         cdbscan_region_query_custom (Some pts) n (int i) params
         = filter (\<lambda>j. cdbscan_euclidean_distance (coords (pts ! i)) (coords (pts ! j))
                          (dimensions (pts ! 0)) \<le> eps params) [0..<nat n]"
proof -
  note v = validate_dataD[OF valid]
  have di: "dimensions (pts ! i) = dimensions (pts ! 0)" using v(3)[OF i] by simp
  have nonneg: "0 \<le> cdbscan_euclidean_distance (coords (pts ! i)) (coords (pts ! j))
                        (dimensions (pts ! 0))" if "j < nat n" for j
  proof -
    from v(3)[OF i] v(3)[OF that] obtain a b where
      "coords (pts ! i) = Some a" "coords (pts ! j) = Some b" by auto
    then show ?thesis using euclidean_distance_nonneg[OF v(2)] by simp
  qed
  have ii: "\<not> int i < 0" "\<not> n \<le> int i" using i by simp_all
  show "cdbscan_region_query (Some pts) n (int i) e
         = filter (\<lambda>j. cdbscan_euclidean_distance (coords (pts ! i)) (coords (pts ! j))
                          (dimensions (pts ! 0)) \<le> e) [0..<nat n]"
    using ii nonneg by (auto simp: cdbscan_region_query_def Let_def di intro!: filter_cong)
  show "cdbscan_region_query_custom (Some pts) n (int i) params
         = filter (\<lambda>j. cdbscan_euclidean_distance (coords (pts ! i)) (coords (pts ! j))
                          (dimensions (pts ! 0)) \<le> eps params) [0..<nat n]"
    if "dist_type params = CDBSCAN_DIST_EUCLIDEAN"
    using ii nonneg that
    by (auto simp: cdbscan_region_query_custom_def calculate_distance_def Let_def di
             intro!: filter_cong)
qed


lemma euclidean_distance_self:
  "0 < dims \<Longrightarrow> cdbscan_euclidean_distance (Some a) (Some a) dims = 0"
  by (simp add: euclidean_distance_eq)

section \<open>The run of \<open>cdbscan_cluster\<close>\<close>

lemma init_points_fold:
  "k \<le> length pts \<Longrightarrow>
   length (fold (\<lambda>i ps. ps[i := (ps ! i)\<lparr>cluster_id := CDBSCAN_UNCLASSIFIED, index := int i\<rparr>])
             [0..<k] pts) = length pts
   \<and> (\<forall>j. fold (\<lambda>i ps. ps[i := (ps ! i)\<lparr>cluster_id := CDBSCAN_UNCLASSIFIED, index := int i\<rparr>])
             [0..<k] pts ! j
          = (if j < k then (pts ! j)\<lparr>cluster_id := CDBSCAN_UNCLASSIFIED, index := int j\<rparr>
             else pts ! j))"
proof (induction k)
  case 0
  then show ?case by simp
next
  case (Suc k)
  then have ih: "length (fold (\<lambda>i ps. ps[i := (ps ! i)\<lparr>cluster_id := CDBSCAN_UNCLASSIFIED, index := int i\<rparr>])
             [0..<k] pts) = length pts"
    "\<And>j. fold (\<lambda>i ps. ps[i := (ps ! i)\<lparr>cluster_id := CDBSCAN_UNCLASSIFIED, index := int i\<rparr>])
             [0..<k] pts ! j
          = (if j < k then (pts ! j)\<lparr>cluster_id := CDBSCAN_UNCLASSIFIED, index := int j\<rparr>
             else pts ! j)"
    by simp_all
  have k: "k < length pts" using Suc.prems by simp
  show ?case
    using ih k by (auto simp: nth_list_update)
qed

lemma init_points_nth:
  assumes "length pts = nat n"
  shows "length (init_points pts n) = length pts"
    and "j < nat n \<Longrightarrow>
         init_points pts n ! j = (pts ! j)\<lparr>cluster_id := CDBSCAN_UNCLASSIFIED, index := int j\<rparr>"
    and "coords (init_points pts n ! j) = coords (pts ! j)"
    and "dimensions (init_points pts n ! j) = dimensions (pts ! j)"
proof -
  have le: "nat n \<le> length pts" using assms by simp
  note f = init_points_fold[OF le]
  show "length (init_points pts n) = length pts" using f by (simp add: init_points_def)
  show "j < nat n \<Longrightarrow>
         init_points pts n ! j = (pts ! j)\<lparr>cluster_id := CDBSCAN_UNCLASSIFIED, index := int j\<rparr>"
    using f by (simp add: init_points_def)
  show "coords (init_points pts n ! j) = coords (pts ! j)"
    using f by (simp add: init_points_def)
  show "dimensions (init_points pts n ! j) = dimensions (pts ! j)"
    using f by (simp add: init_points_def)
qed

lemma validate_data_geometry:
  assumes "cdbscan_validate_data (Some pts) n"
    and c: "\<And>j. coords (qs ! j) = coords (pts ! j)"
    and d: "\<And>j. dimensions (qs ! j) = dimensions (pts ! j)"
  shows "cdbscan_validate_data (Some qs) n"
proof -
  note v = validate_dataD[OF assms(1)]
  have "\<forall>i\<in>set [0..<nat n]. coords (qs ! i) \<noteq> None \<and> dimensions (qs ! i) = dimensions (qs ! 0)"
  proof
    fix i assume "i \<in> set [0..<nat n]"
    then have "i < nat n" by simp
    from v(3)[OF this] show "coords (qs ! i) \<noteq> None \<and> dimensions (qs ! i) = dimensions (qs ! 0)"
      unfolding c[of i] d[of i] d[of 0] .
  qed
  then have la: "list_all (\<lambda>i. coords (qs ! i) \<noteq> None \<and> dimensions (qs ! i) = dimensions (qs ! 0))
                   [0..<nat n]"
    unfolding list_all_iff .
  have n: "\<not> n \<le> 0" using v(1) by simp
  have dm: "\<not> dimensions (qs ! 0) \<le> 0" using v(2) d[of 0] by simp
  show ?thesis
    unfolding cdbscan_validate_data_def option.case Let_def if_not_P[OF n] if_not_P[OF dm]
    by (rule la)
qed

text \<open>The tree pointer and the parameter block that \<open>cdbscan_cluster\<close> passes to its loop.\<close>

definition run_tree ::
  "bool list \<Rightarrow> cdbscan_point list \<Rightarrow> int \<Rightarrow> cdbscan_params \<Rightarrow> kdtree_t option" where
  "run_tree heap points1 n params =
     (if use_kdtree params \<noteq> 0 \<and> dist_type params = CDBSCAN_DIST_EUCLIDEAN
      then fst (kdtree_build (snd (alloc (snd (alloc heap)))) (Some points1) n)
      else None)"

definition run_params :: "kdtree_t option \<Rightarrow> cdbscan_params \<Rightarrow> cdbscan_params" where
  "run_params tree params =
     (if use_kdtree params \<noteq> 0 \<and> dist_type params = CDBSCAN_DIST_EUCLIDEAN \<and> tree = None
      then params\<lparr>use_kdtree := 0\<rparr> else params)"

lemma cdbscan_cluster_unfold:
  assumes "cdbscan_validate_params params" "cdbscan_validate_data (Some pts) n"
  shows "cdbscan_cluster heap (Some pts) n params =
     (if \<not> fst (alloc heap) \<or> \<not> fst (alloc (snd (alloc heap)))
      then Some (-1, Some (init_points pts n))
      else (case cluster_loop (run_tree heap (init_points pts n) n params)
                   (run_params (run_tree heap (init_points pts n) n params) params)
                   n 0 0 (init_points pts n) of
              None \<Rightarrow> None
            | Some (cid, points2) \<Rightarrow> Some (cid, Some points2)))"
  using assms
  by (simp add: cdbscan_cluster_def Let_def run_tree_def run_params_def split: prod.splits)

lemma cdbscan_cluster_invalid:
  "\<not> cdbscan_validate_params params \<or> \<not> cdbscan_validate_data points n \<Longrightarrow>
   cdbscan_cluster heap points n params = Some (-1, points)"
  by (auto simp: cdbscan_cluster_def)

lemma calculate_distance_use_kdtree [simp]:
  "calculate_distance a b d (params\<lparr>use_kdtree := u\<rparr>) = calculate_distance a b d params"
  by (cases "dist_type params") (simp_all add: calculate_distance_def)

lemma region_query_custom_use_kdtree [simp]:
  "cdbscan_region_query_custom points n i (params\<lparr>use_kdtree := u\<rparr>)
   = cdbscan_region_query_custom points n i params"
  by (cases points) (simp_all add: cdbscan_region_query_custom_def cong: if_cong)

lemma run_region_ok:
  assumes valid: "cdbscan_validate_data (Some base) n" and len: "length base = nat n"
  shows "region_ok (region_of (run_tree heap base n params)
                      (run_params (run_tree heap base n params) params) n) base"
proof (cases "run_tree heap base n params")
  case None
  have "region_of None (run_params None params) n
        = (\<lambda>pts i. cdbscan_region_query_custom (Some pts) n (int i) (run_params None params))"
    by (simp add: region_of_def)
  then show ?thesis using None region_ok_brute[of n base] len by simp
next
  case (Some t)
  let ?h = "snd (alloc (snd (alloc heap)))"
  from Some have "fst (kdtree_build ?h (Some base) n) = Some t"
    by (simp add: run_tree_def split: if_splits)
  then have b: "kdtree_build ?h (Some base) n = (Some t, snd (kdtree_build ?h (Some base) n))"
    by (metis prod.collapse)
  note v = validate_dataD[OF valid]
  have "tree_mset (root t) \<subseteq># mset [0..<length base]"
    using kdtree_build_tree(3)[OF b v(2)] len by simp
  from region_ok_kdtree[OF this]
  have "region_ok (\<lambda>pts i. kdtree_range_query (Some t) pts i
                     (eps (run_params (Some t) params))) base" .
  moreover have "region_of (Some t) (run_params (Some t) params) n
        = (\<lambda>pts i. kdtree_range_query (Some t) pts i (eps (run_params (Some t) params)))"
    by (simp add: region_of_def)
  ultimately show ?thesis using Some by simp
qed


lemma cdbscan_cluster_rule:
  assumes vp: "cdbscan_validate_params params" and vd: "cdbscan_validate_data (Some pts) n"
    and len: "length pts = nat n"
    and bufs: "fst (alloc heap)" "fst (alloc (snd (alloc heap)))"
    and tree: "tree = run_tree heap (init_points pts n) n params"
    and prm: "prm = run_params tree params"
    and init: "I 0 0 (init_points pts n)"
    and skip: "\<And>i cid ps. I i cid ps \<Longrightarrow> i < nat n \<Longrightarrow>
                 cluster_id (ps ! i) \<noteq> CDBSCAN_UNCLASSIFIED \<Longrightarrow> I (i + 1) cid ps"
    and noise: "\<And>i cid ps. I i cid ps \<Longrightarrow> same_geometry (init_points pts n) ps \<Longrightarrow> i < nat n \<Longrightarrow>
                 cluster_id (ps ! i) = CDBSCAN_UNCLASSIFIED \<Longrightarrow>
                 int (length (region_of tree prm n (init_points pts n) i)) < min_pts prm \<Longrightarrow>
                 I (i + 1) cid (set_cluster_id ps i CDBSCAN_NOISE)"
    and expand: "\<And>i cid ps ps' seeds'. I i cid ps \<Longrightarrow> same_geometry (init_points pts n) ps \<Longrightarrow>
                 0 \<le> cid \<Longrightarrow> i < nat n \<Longrightarrow> cluster_id (ps ! i) = CDBSCAN_UNCLASSIFIED \<Longrightarrow>
                 \<not> int (length (region_of tree prm n (init_points pts n) i)) < min_pts prm \<Longrightarrow>
                 expand_cluster_with (region_of tree prm n) ps n i cid prm
                   = Some (1, ps', seeds') \<Longrightarrow>
                 same_geometry (init_points pts n) ps' \<Longrightarrow>
                 expanded_from cid (region_of tree prm n (init_points pts n) i) ps ps' \<Longrightarrow>
                 I (i + 1) (cid + 1) ps'"
  shows "\<exists>c pts'. cdbscan_cluster heap (Some pts) n params = Some (c, Some pts')
           \<and> 0 \<le> c \<and> same_geometry (init_points pts n) pts' \<and> I (nat n) c pts'"
proof -
  let ?base = "init_points pts n"
  note ip = init_points_nth[OF len]
  have lb: "length ?base = nat n" using ip(1) len by simp
  have vb: "cdbscan_validate_data (Some ?base) n"
    by (rule validate_data_geometry[OF vd ip(3) ip(4)])
  have Q: "region_ok (region_of tree prm n) ?base"
    unfolding tree prm by (rule run_region_ok[OF vb lb])
  have n: "nat n = length ?base" using lb by simp
  have skip': "\<And>i cid ps. I i cid ps \<Longrightarrow> i < length ?base \<Longrightarrow>
                 cluster_id (ps ! i) \<noteq> CDBSCAN_UNCLASSIFIED \<Longrightarrow> I (i + 1) cid ps"
    using skip lb by simp
  have noise': "\<And>i cid ps. I i cid ps \<Longrightarrow> same_geometry ?base ps \<Longrightarrow> i < length ?base \<Longrightarrow>
                 cluster_id (ps ! i) = CDBSCAN_UNCLASSIFIED \<Longrightarrow>
                 int (length (region_of tree prm n ?base i)) < min_pts prm \<Longrightarrow>
                 I (i + 1) cid (set_cluster_id ps i CDBSCAN_NOISE)"
    using noise lb by simp
  have expand': "\<And>i cid ps ps' seeds'. I i cid ps \<Longrightarrow> same_geometry ?base ps \<Longrightarrow>
                 0 \<le> cid \<Longrightarrow> i < length ?base \<Longrightarrow> cluster_id (ps ! i) = CDBSCAN_UNCLASSIFIED \<Longrightarrow>
                 \<not> int (length (region_of tree prm n ?base i)) < min_pts prm \<Longrightarrow>
                 expand_cluster_with (region_of tree prm n) ps n i cid prm
                   = Some (1, ps', seeds') \<Longrightarrow>
                 same_geometry ?base ps' \<Longrightarrow>
                 expanded_from cid (region_of tree prm n ?base i) ps ps' \<Longrightarrow>
                 I (i + 1) (cid + 1) ps'"
    using expand lb by simp
  have "\<exists>c pts'. cluster_loop tree prm n 0 0 ?base = Some (c, pts')
           \<and> same_geometry ?base pts' \<and> 0 \<le> c \<and> I (length ?base) c pts'"
    apply (rule cluster_loop_rule[where I = I, OF Q n])
          apply (rule skip'; assumption)
         apply (rule noise'; assumption)
        apply (rule expand'; assumption)
       apply (rule init)
      apply (rule same_geometry_refl)
     apply simp
    apply simp
    done
  then obtain c pts' where r: "cluster_loop tree prm n 0 0 ?base = Some (c, pts')"
    "same_geometry ?base pts'" "0 \<le> c" "I (length ?base) c pts'"
    by blast
  have "cdbscan_cluster heap (Some pts) n params = Some (c, Some pts')"
    using cdbscan_cluster_unfold[OF vp vd, of heap] bufs r(1) tree prm by simp
  with r lb show ?thesis by simp
qed


lemma cdbscan_cluster_outcome:
  assumes vp: "cdbscan_validate_params params" and vd: "cdbscan_validate_data (Some pts) n"
    and len: "length pts = nat n"
  shows "if fst (alloc heap) \<and> fst (alloc (snd (alloc heap)))
         then \<exists>r pts'. cdbscan_cluster heap (Some pts) n params = Some (r, Some pts')
                \<and> 0 \<le> r \<and> same_geometry (init_points pts n) pts'
         else cdbscan_cluster heap (Some pts) n params = Some (-1, Some (init_points pts n))"
proof (cases "fst (alloc heap) \<and> fst (alloc (snd (alloc heap)))")
  case False
  then show ?thesis using cdbscan_cluster_unfold[OF vp vd, of heap] by auto
next
  case True
  then have b: "fst (alloc heap)" "fst (alloc (snd (alloc heap)))" by simp_all
  have "\<exists>c pts'. cdbscan_cluster heap (Some pts) n params = Some (c, Some pts')
           \<and> 0 \<le> c \<and> same_geometry (init_points pts n) pts' \<and> True"
    by (rule cdbscan_cluster_rule[where I = "\<lambda>i c ps. True", OF vp vd len b refl refl]) simp_all
  then show ?thesis using True by simp
qed

lemma region_query_custom_cong:
  assumes "\<And>j. coords (qs ! j) = coords (ps ! j)" "\<And>j. dimensions (qs ! j) = dimensions (ps ! j)"
  shows "cdbscan_region_query_custom (Some qs) n i params
         = cdbscan_region_query_custom (Some ps) n i params"
  by (simp add: cdbscan_region_query_custom_def Let_def assms)

text \<open>
  When the tree is not used, or every allocation is served, the region query of the run
  is the brute-force query on the caller's array.
\<close>

lemma run_region_eq:
  assumes vd: "cdbscan_validate_data (Some pts) n" and len: "length pts = nat n"
    and al: "use_kdtree params = 0 \<or> dist_type params \<noteq> CDBSCAN_DIST_EUCLIDEAN
             \<or> (\<forall>b\<in>set heap. b)"
    and i: "i < nat n"
  shows "region_of (run_tree heap (init_points pts n) n params)
           (run_params (run_tree heap (init_points pts n) n params) params) n
           (init_points pts n) i
         = cdbscan_region_query_custom (Some pts) n (int i) params"
proof -
  let ?base = "init_points pts n"
  note ip = init_points_nth[OF len]
  have bq: "\<And>prm. cdbscan_region_query_custom (Some ?base) n (int i) prm
            = cdbscan_region_query_custom (Some pts) n (int i) prm"
    by (rule region_query_custom_cong[OF ip(3) ip(4)])
  have vb: "cdbscan_validate_data (Some ?base) n"
    by (rule validate_data_geometry[OF vd ip(3) ip(4)])
  show ?thesis
  proof (cases "run_tree heap ?base n params")
    case None
    then show ?thesis
      using bq by (simp add: region_of_def run_params_def)
  next
    case (Some t)
    let ?h = "snd (alloc (snd (alloc heap)))"
    from Some have kd: "use_kdtree params \<noteq> 0" "dist_type params = CDBSCAN_DIST_EUCLIDEAN"
      and ft: "fst (kdtree_build ?h (Some ?base) n) = Some t"
      by (simp_all add: run_tree_def split: if_splits)
    from kd al have served: "\<forall>b\<in>set heap. b" by blast
    from alloc_served[OF served] have "\<forall>b\<in>set (snd (alloc heap)). b" by blast
    from alloc_served[OF this] have h: "\<forall>b\<in>set ?h. b" by blast
    from ft have b: "kdtree_build ?h (Some ?base) n
                     = (Some t, snd (kdtree_build ?h (Some ?base) n))"
      by (metis prod.collapse)
    note tr = kdtree_build_tree[OF b validate_dataD(2)[OF vb]]
    have "kdtree_range_query (Some t) ?base i (eps params)
          = cdbscan_region_query_custom (Some ?base) n (int i) params"
      using kdtree_range_query_eq_filter[OF vb tr(1) tr(2) tr(4)[OF h] i, of "eps params"]
        region_query_eq_filter(2)[OF vb i kd(2)]
      by simp
    then show ?thesis
      using Some bq kd by (simp add: region_of_def run_params_def)
  qed
qed

text \<open>The labels in use once the counter of the main loop is \<open>c\<close>.\<close>

definition label_below :: "int \<Rightarrow> int \<Rightarrow> bool" where
  "label_below c a \<longleftrightarrow> a = CDBSCAN_UNCLASSIFIED \<or> a = CDBSCAN_NOISE \<or> (0 \<le> a \<and> a < c)"

lemma label_below_mono: "label_below c a \<Longrightarrow> label_below (c + 1) a"
  by (auto simp: label_below_def)

lemma label_below_self: "0 \<le> c \<Longrightarrow> label_below (c + 1) c"
  by (auto simp: label_below_def)

lemma tree_region_ok:
  assumes valid: "cdbscan_validate_data (Some base) n" and len: "length base = nat n"
    and tree: "tree = None \<or> tree = fst (kdtree_build heap (Some base) n)"
  shows "region_ok (region_of tree params n) base"
proof (cases tree)
  case None
  have "region_of None params n
        = (\<lambda>pts i. cdbscan_region_query_custom (Some pts) n (int i) params)"
    by (simp add: region_of_def)
  then show ?thesis using None region_ok_brute[of n base] len by simp
next
  case (Some t)
  with tree have "fst (kdtree_build heap (Some base) n) = Some t" by simp
  then have b: "kdtree_build heap (Some base) n = (Some t, snd (kdtree_build heap (Some base) n))"
    by (metis prod.collapse)
  have "tree_mset (root t) \<subseteq># mset [0..<length base]"
    using kdtree_build_tree(3)[OF b validate_dataD(2)[OF valid]] len by simp
  from region_ok_kdtree[OF this]
  have "region_ok (\<lambda>pts i. kdtree_range_query (Some t) pts i (eps params)) base" .
  moreover have "region_of (Some t) params n
        = (\<lambda>pts i. kdtree_range_query (Some t) pts i (eps params))"
    by (simp add: region_of_def)
  ultimately show ?thesis using Some by simp
qed

subsection \<open>Runs under region queries that agree\<close>

text \<open>Two region queries that agree on the base array drive the same computation.\<close>

lemma region_ok_agree:
  assumes "region_ok Q1 base" "region_ok Q2 base" "Q1 base i = Q2 base i"
    and "same_geometry base ps"
  shows "Q1 ps i = Q2 ps i"
  using region_ok_query(1)[OF assms(1,4), of i] region_ok_query(1)[OF assms(2,4), of i] assms(3)
  by simp

lemma expand_seeds_cong:
  assumes Q1: "region_ok Q1 base" and Q2: "region_ok Q2 base"
    and ag: "\<And>i. i < length base \<Longrightarrow> Q1 base i = Q2 base i"
    and cid: "cid \<noteq> CDBSCAN_UNCLASSIFIED"
  shows "same_geometry base ps \<Longrightarrow> set seeds \<subseteq> {..<length base} \<Longrightarrow>
     expand_seeds Q1 cap m cid ps seeds cur = expand_seeds Q2 cap m cid ps seeds cur"
proof (induction "max cap (length seeds) - cur" arbitrary: ps seeds cur rule: less_induct)
  case less
  note geo = less.prems(1) and sub = less.prems(2)
  show ?case
  proof (cases "cur < length seeds")
    case False
    then show ?thesis
      by (simp add: expand_seeds.simps[of Q1] expand_seeds.simps[of Q2])
  next
    case True
    then have s: "seeds ! cur < length base" using sub by (auto simp: subset_iff)
    have nbq: "Q1 ps (seeds ! cur) = Q2 ps (seeds ! cur)"
      by (rule region_ok_agree[OF Q1 Q2 ag[OF s] geo])
    let ?nb = "Q2 ps (seeds ! cur)"
    have nbs: "set ?nb \<subseteq> {..<length ps}" by (rule region_ok_query(3)[OF Q2 geo])
    have len: "length ps = length base" using geo by (simp add: same_geometry_def)
    have skip: "expand_seeds Q1 cap m cid ps seeds (cur + 1)
                = expand_seeds Q2 cap m cid ps seeds (cur + 1)"
      using less.hyps[of seeds "cur + 1" ps] True geo sub by simp
    have step: "expand_seeds Q1 cap m cid ps' seeds' (cur + 1)
                = expand_seeds Q2 cap m cid ps' seeds' (cur + 1)"
      if en: "expand_neighbors cap cid ?nb ps seeds = Some (ps', seeds')" for ps' seeds'
    proof -
      from expand_neighbors_length[OF en]
      have l: "length seeds \<le> length seeds'" "length seeds' \<le> max cap (length seeds)" by simp_all
      from expand_neighbors_seeds[OF en nbs cid] obtain ext where
        ext: "seeds' = seeds @ ext"
        "set ext = {j \<in> set ?nb. cluster_id (ps ! j) = CDBSCAN_UNCLASSIFIED}" by blast
      have sub': "set seeds' \<subseteq> {..<length base}" using ext sub nbs len by auto
      have geo': "same_geometry base ps'"
        using expand_neighbors_geometry[OF en] geo same_geometry_trans by blast
      have "max cap (length seeds') - (cur + 1) < max cap (length seeds) - cur"
        using l True by linarith
      from less.hyps[OF this geo' sub'] show ?thesis .
    qed
    show ?thesis
      using True nbq skip step
      by (simp add: expand_seeds.simps[of Q1 cap m cid ps seeds cur]
            expand_seeds.simps[of Q2 cap m cid ps seeds cur] buffer_fill_def
          split: option.splits)
  qed
qed

lemma expand_cluster_with_cong:
  assumes Q1: "region_ok Q1 base" and Q2: "region_ok Q2 base"
    and ag: "\<And>i. i < length base \<Longrightarrow> Q1 base i = Q2 base i"
    and cid: "cid \<noteq> CDBSCAN_UNCLASSIFIED" and m: "min_pts prm1 = min_pts prm2"
    and geo: "same_geometry base ps" and p: "p < length base"
  shows "expand_cluster_with Q1 ps n p cid prm1 = expand_cluster_with Q2 ps n p cid prm2"
proof -
  have nbq: "Q1 ps p = Q2 ps p" by (rule region_ok_agree[OF Q1 Q2 ag[OF p] geo])
  let ?seeds = "Q2 ps p"
  let ?p1 = "fold (\<lambda>s pts. set_cluster_id pts s cid) ?seeds ps"
  let ?s1 = "remove_core_point ?seeds p [0..<length ?seeds]"
  have d: "distinct ?seeds" and sub: "set ?seeds \<subseteq> {..<length ps}"
    using region_ok_query(2,3)[OF Q2 geo] by simp_all
  have len: "length ps = length base" using geo by (simp add: same_geometry_def)
  have g1: "same_geometry base ?p1"
    using fold_set_cluster_id[OF sub, of cid] geo same_geometry_trans by blast
  have s1: "set ?s1 \<subseteq> {..<length base}"
    using remove_core_point_all(2)[OF d, of p] sub len by auto
  have eq: "expand_seeds Q1 (nat n) (min_pts prm2) cid ?p1 ?s1 0
        = expand_seeds Q2 (nat n) (min_pts prm2) cid ?p1 ?s1 0"
    by (rule expand_seeds_cong[OF Q1 Q2 ag cid g1 s1])
  show ?thesis
  proof (cases "length ?seeds \<le> nat n")
    case True
    then have bf: "buffer_fill (nat n) ?seeds = Some ?seeds" by (simp add: buffer_fill_def)
    show ?thesis
      unfolding expand_cluster_with_def nbq m Let_def bf option.case eq by (rule refl)
  next
    case False
    then have bf: "buffer_fill (nat n) ?seeds = None" by (simp add: buffer_fill_def)
    show ?thesis
      unfolding expand_cluster_with_def nbq bf option.case by (rule refl)
  qed
qed

lemma cluster_loop_cong:
  assumes Q1: "region_ok (region_of t1 prm1 n) base" and Q2: "region_ok (region_of t2 prm2 n) base"
    and ag: "\<And>i. i < length base \<Longrightarrow> region_of t1 prm1 n base i = region_of t2 prm2 n base i"
    and m: "min_pts prm1 = min_pts prm2" and n: "nat n = length base"
  shows "same_geometry base ps \<Longrightarrow> 0 \<le> cid \<Longrightarrow>
     cluster_loop t1 prm1 n i cid ps = cluster_loop t2 prm2 n i cid ps"
proof (induction "length base - i" arbitrary: i cid ps)
  case 0
  then have "\<not> int i < n" using n by linarith
  then show ?case
    by (simp add: cluster_loop_unfold[of t1] cluster_loop_unfold[of t2])
next
  case (Suc k)
  note geo = Suc.prems(1) and c0 = Suc.prems(2)
  have i: "i < length base" using Suc.hyps(2) by simp
  have k: "k = length base - (i + 1)" using Suc.hyps(2) by simp
  have cid: "cid \<noteq> CDBSCAN_UNCLASSIFIED" "cid \<noteq> CDBSCAN_NOISE"
    using c0 by (simp_all add: CDBSCAN_UNCLASSIFIED_def CDBSCAN_NOISE_def)
  have nbq: "region_of t1 prm1 n ps i = region_of t2 prm2 n ps i"
    by (rule region_ok_agree[OF Q1 Q2 ag[OF i] geo])
  have ex: "expand_cluster_with (region_of t1 prm1 n) ps n i cid prm1
            = expand_cluster_with (region_of t2 prm2 n) ps n i cid prm2"
    by (rule expand_cluster_with_cong[OF Q1 Q2 ag cid(1) m geo i])
  have r1: "cluster_loop t1 prm1 n (i + 1) cid ps = cluster_loop t2 prm2 n (i + 1) cid ps"
    by (rule Suc.hyps(1)[OF k geo c0])
  have r2: "cluster_loop t1 prm1 n (i + 1) cid (set_cluster_id ps i CDBSCAN_NOISE)
            = cluster_loop t2 prm2 n (i + 1) cid (set_cluster_id ps i CDBSCAN_NOISE)"
    by (rule Suc.hyps(1)[OF k same_geometry_trans[OF geo same_geometry_set_cluster_id] c0])
  have r3: "cluster_loop t1 prm1 n (i + 1) (if r \<noteq> 0 then cid + 1 else cid) ps'
            = cluster_loop t2 prm2 n (i + 1) (if r \<noteq> 0 then cid + 1 else cid) ps'"
    if e: "expand_cluster_with (region_of t2 prm2 n) ps n i cid prm2 = Some (r, ps', seeds')"
    for r ps' seeds'
  proof -
    from expand_cluster_with_spec[OF Q2 cid n geo, of i prm2] e
    have "same_geometry base ps'" by auto
    moreover have "0 \<le> (if r \<noteq> 0 then cid + 1 else cid)" using c0 by simp
    ultimately show ?thesis by (rule Suc.hyps(1)[OF k])
  qed
  show ?case
    using nbq ex r1 r2 r3 m
    by (simp add: cluster_loop_unfold[of t1 prm1 n i cid ps]
          cluster_loop_unfold[of t2 prm2 n i cid ps]
        split: option.splits)
qed


lemma validate_params_use_kdtree [simp]:
  "cdbscan_validate_params (params\<lparr>use_kdtree := u\<rparr>) = cdbscan_validate_params params"
  by (simp add: cdbscan_validate_params_def)

section \<open>Concrete inputs\<close>

text \<open>One-dimensional points, freshly created (unclassified) and with a given label.\<close>

definition pt :: "real \<Rightarrow> cdbscan_point" where
  "pt x = \<lparr>coords = Some [x], dimensions = 1, cluster_id = -1, index = 0\<rparr>"

definition lpt :: "real \<Rightarrow> int \<Rightarrow> int \<Rightarrow> cdbscan_point" where
  "lpt x c i = \<lparr>coords = Some [x], dimensions = 1, cluster_id = c, index = i\<rparr>"

definition euclid_params :: "real \<Rightarrow> int \<Rightarrow> int \<Rightarrow> cdbscan_params" where
  "euclid_params e m kd =
     \<lparr>eps = e, min_pts = m, dist_type = CDBSCAN_DIST_EUCLIDEAN, minkowski_p = 0,
      custom_dist = None, use_kdtree = kd\<rparr>"

definition custom_params :: "real \<Rightarrow> int \<Rightarrow> cdbscan_dist_func \<Rightarrow> cdbscan_params" where
  "custom_params e m f =
     \<lparr>eps = e, min_pts = m, dist_type = CDBSCAN_DIST_CUSTOM, minkowski_p = 0,
      custom_dist = Some f, use_kdtree = 0\<rparr>"


lemmas run_eval =
  cdbscan_cluster_def cdbscan_validate_params_def cdbscan_validate_data_def
  init_points_def cluster_loop.simps expand_cluster_def expand_cluster_with_def
  expand_seeds.simps buffer_fill_def set_cluster_id_def
  cdbscan_region_query_custom_def calculate_distance_def cdbscan_euclidean_distance_def
  cdbscan_manhattan_distance_def CDBSCAN_UNCLASSIFIED_def CDBSCAN_NOISE_def
  euclid_params_def custom_params_def pt_def lpt_def Let_def upt_conv_Cons

text \<open>
  Seven points on a line, radius 10, \<open>min_pts\<close> 4. The points at 0 and 20 are core points;
  the point at 10 has three neighbours (0, 10, 20) and borders both clusters. The array is
  given with the labels before the run, after the expansion from point 0, and at the end.
\<close>

definition border_points :: "int list \<Rightarrow> cdbscan_point list" where
  "border_points labels =
     [lpt 0 (labels ! 0) 0, lpt 10 (labels ! 1) 1, lpt (-5) (labels ! 2) 2,
      lpt (-6) (labels ! 3) 3, lpt 20 (labels ! 4) 4, lpt 25 (labels ! 5) 5,
      lpt 26 (labels ! 6) 6]"

definition two_points :: "cdbscan_point list" where
  "two_points = [pt 0, pt 3, pt 4, pt 20]"


section \<open>Region queries under a metric that reports negative values\<close>

text \<open>
  Claim C10. \<open>cdbscan_region_query_custom\<close> reports no error when the configured metric
  returns a negative value (the sentinel \<open>-1\<close> or a negative value of a custom metric):
  a point whose distance to the query point is negative is left out of the neighbour
  list, and when the distance to every point is negative the list is empty (count 0).
\<close>

theorem region_query_custom_omits_negative:
  "(calculate_distance (coords (pts ! nat idx)) (coords (pts ! j))
      (dimensions (pts ! nat idx)) params < 0
      \<longrightarrow> j \<notin> set (cdbscan_region_query_custom (Some pts) n idx params))
   \<and> ((\<forall>i < nat n. calculate_distance (coords (pts ! nat idx)) (coords (pts ! i))
                      (dimensions (pts ! nat idx)) params < 0)
      \<longrightarrow> cdbscan_region_query_custom (Some pts) n idx params = [])"
  by (auto simp: cdbscan_region_query_custom_def Let_def filter_empty_conv)

theorem region_query_custom_omits_negative_witness:
  "calculate_distance (coords ([pt 0, pt 3] ! nat 0)) (coords ([pt 0, pt 3] ! 1))
      (dimensions ([pt 0, pt 3] ! nat 0)) (custom_params 5 1 (\<lambda>a b d. if a = b then 0 else -1)) < 0
   \<and> 1 \<notin> set (cdbscan_region_query_custom (Some [pt 0, pt 3]) 2 0
                 (custom_params 5 1 (\<lambda>a b d. if a = b then 0 else -1)))
   \<and> cdbscan_region_query_custom (Some [pt 0, pt 3]) 2 0 (custom_params 5 1 (\<lambda>a b d. -1)) = []"
proof -
  have neg: "calculate_distance (coords ([pt 0, pt 3] ! nat 0)) (coords ([pt 0, pt 3] ! 1))
      (dimensions ([pt 0, pt 3] ! nat 0)) (custom_params 5 1 (\<lambda>a b d. if a = b then 0 else -1)) < 0"
    by (simp add: calculate_distance_def custom_params_def pt_def)
  have allneg: "\<forall>i < nat 2. calculate_distance (coords ([pt 0, pt 3] ! nat 0))
      (coords ([pt 0, pt 3] ! i)) (dimensions ([pt 0, pt 3] ! nat 0))
      (custom_params 5 1 (\<lambda>a b d. -1)) < 0"
    by (simp add: calculate_distance_def custom_params_def)
  from neg allneg
    region_query_custom_omits_negative
      [of "[pt 0, pt 3]" 0 1 "custom_params 5 1 (\<lambda>a b d. if a = b then 0 else -1)" 2]
    region_query_custom_omits_negative
      [of "[pt 0, pt 3]" 0 1 "custom_params 5 1 (\<lambda>a b d. -1)" 2]
  show ?thesis by blast
qed

section \<open>Equivalence of the KD-tree range query and the brute-force scan\<close>

text \<open>
  Over the reals and with every allocation served: on a valid point set, with the tree
  built by \<open>kdtree_build\<close>, the KD-tree range query returns for every query index and
  every radius the same list as the brute-force scan \<open>cdbscan_region_query\<close>, the indices
  of all points at Euclidean distance at most the radius, in ascending order, the query
  point among them when the radius is not negative. This is the algorithm as intended; it
  says nothing of rounding in the C doubles nor of a refused allocation.
\<close>

theorem kdtree_range_query_eq_region_query:
  assumes "cdbscan_validate_data (Some pts) n" and "\<forall>b\<in>set heap. b"
    and "0 \<le> idx" and "idx < n"
  shows "\<exists>t. fst (kdtree_build heap (Some pts) n) = Some t
     \<and> kdtree_range_query (Some t) pts (nat idx) e = cdbscan_region_query (Some pts) n idx e
     \<and> sorted (kdtree_range_query (Some t) pts (nat idx) e)
     \<and> set (kdtree_range_query (Some t) pts (nat idx) e)
         = {j. j < nat n \<and> cdbscan_euclidean_distance (coords (pts ! nat idx))
                              (coords (pts ! j)) (dimensions (pts ! nat idx)) \<le> e}
     \<and> (0 \<le> e \<longrightarrow> nat idx \<in> set (kdtree_range_query (Some t) pts (nat idx) e))"
proof -
  note v = validate_dataD[OF assms(1)]
  have i: "nat idx < nat n" using assms(3,4) by simp
  have di: "dimensions (pts ! nat idx) = dimensions (pts ! 0)" using v(3)[OF i] by simp
  from kdtree_build_served[OF assms(2) v(1), of pts]
  obtain t where t: "fst (kdtree_build heap (Some pts) n) = Some t" by blast
  then have b: "kdtree_build heap (Some pts) n = (Some t, snd (kdtree_build heap (Some pts) n))"
    by (metis prod.collapse)
  note tr = kdtree_build_tree[OF b v(2)]
  let ?P = "\<lambda>j. cdbscan_euclidean_distance (coords (pts ! nat idx)) (coords (pts ! j))
                   (dimensions (pts ! 0)) \<le> e"
  have kd: "kdtree_range_query (Some t) pts (nat idx) e = filter ?P [0..<nat n]"
    by (rule kdtree_range_query_eq_filter[OF assms(1) tr(1) tr(2) tr(4)[OF assms(2)] i])
  have bf: "cdbscan_region_query (Some pts) n idx e = filter ?P [0..<nat n]"
    using region_query_eq_filter(1)[OF assms(1) i, of e] assms(3) by simp
  have self: "?P (nat idx)" if "0 \<le> e"
  proof -
    from v(3)[OF i] obtain a where "coords (pts ! nat idx) = Some a" by auto
    then show ?thesis using euclidean_distance_self[OF v(2), of a] that by simp
  qed
  have "sorted (filter ?P [0..<nat n])" by (simp add: sorted_wrt_filter)
  moreover have "set (filter ?P [0..<nat n])
      = {j. j < nat n \<and> cdbscan_euclidean_distance (coords (pts ! nat idx))
                              (coords (pts ! j)) (dimensions (pts ! nat idx)) \<le> e}"
    using di by auto
  moreover have "0 \<le> e \<longrightarrow> nat idx \<in> set (filter ?P [0..<nat n])"
    using self i by simp
  ultimately show ?thesis using t kd bf by simp
qed

theorem kdtree_range_query_eq_region_query_witness:
  "cdbscan_validate_data (Some [pt 0, pt 3, pt 1]) 3
   \<and> cdbscan_region_query (Some [pt 0, pt 3, pt 1]) 3 0 2 = [0, 2]
   \<and> (\<exists>t. fst (kdtree_build [] (Some [pt 0, pt 3, pt 1]) 3) = Some t
         \<and> kdtree_range_query (Some t) [pt 0, pt 3, pt 1] (nat 0) 2 = [0, 2])"
proof -
  have v: "cdbscan_validate_data (Some [pt 0, pt 3, pt 1]) 3"
    by (simp add: cdbscan_validate_data_def pt_def upt_conv_Cons)
  have q: "cdbscan_region_query (Some [pt 0, pt 3, pt 1]) 3 0 2 = [0, 2]"
    by (simp add: cdbscan_region_query_def cdbscan_euclidean_distance_def pt_def Let_def
          upt_conv_Cons)
  have h: "\<forall>b\<in>set ([] :: bool list). b" by simp
  from kdtree_range_query_eq_region_query[OF v h, of 0 2] q v
  show ?thesis by auto
qed

text \<open>
  Claim C3 states that the KD-tree range query returns the list of the brute-force scan
  for every valid point set, query index and radius. The code departs from it when the
  allocation of a tree node is refused: \<open>kdtree_build_recursive\<close> returns a null subtree
  without reporting the failure, \<open>kdtree_build\<close> still returns a tree, and the query
  misses the points of that subtree. With the root node refused the query returns no index
  at all, where the scan returns the points 0 and 2. (In the C doubles the two lists also
  differ when a squared coordinate difference underflows to 0 while the difference itself
  exceeds the radius: the scan then keeps a point that the pruning test of the tree drops.
  Over the reals a distance is never below a coordinate difference.)
\<close>

theorem kdtree_range_query_refused_node:
  "fst (kdtree_build [True, True, False] (Some [pt 0, pt 3, pt 1]) 3)
     = Some \<lparr>root = Null, tree_num_points = 3, tree_dimensions = 1\<rparr>
   \<and> kdtree_range_query (Some \<lparr>root = Null, tree_num_points = 3, tree_dimensions = 1\<rparr>)
        [pt 0, pt 3, pt 1] 0 2 = []
   \<and> cdbscan_region_query (Some [pt 0, pt 3, pt 1]) 3 0 2 = [0, 2]"
proof -
  have b: "kdtree_build_recursive [False] [0..<nat 3] [pt 0, pt 3, pt 1] 0 1 = (Null, [])"
    by (subst kdtree_build_recursive.simps) simp
  have "dimensions ([pt 0, pt 3, pt 1] ! 0) = 1" by (simp add: pt_def)
  with b have "fst (kdtree_build [True, True, False] (Some [pt 0, pt 3, pt 1]) 3)
     = Some \<lparr>root = Null, tree_num_points = 3, tree_dimensions = 1\<rparr>"
    by (simp add: kdtree_build_def Let_def)
  moreover have "cdbscan_region_query (Some [pt 0, pt 3, pt 1]) 3 0 2 = [0, 2]"
    by (simp add: cdbscan_region_query_def cdbscan_euclidean_distance_def pt_def Let_def
          upt_conv_Cons)
  ultimately show ?thesis by (simp add: kdtree_range_query_def)
qed

theorem kdtree_range_query_refused_node_witness:
  "\<exists>t. fst (kdtree_build [True, True, False] (Some [pt 0, pt 3, pt 1]) 3) = Some t
     \<and> kdtree_range_query (Some t) [pt 0, pt 3, pt 1] 0 2
         \<noteq> cdbscan_region_query (Some [pt 0, pt 3, pt 1]) 3 0 2"
  using kdtree_range_query_refused_node by simp

section \<open>Frame, failure and buffer bounds of \<open>cdbscan_cluster\<close>\<close>

text \<open>
  Claim C9. \<open>cdbscan_cluster\<close> leaves the coordinates and the \<open>dimensions\<close> field of
  every point as they were, on every path; the fields it writes are \<open>cluster_id\<close> and
  \<open>index\<close>, and once validation has passed every point's \<open>index\<close> holds its array
  position (also when the working buffers cannot be allocated). When validation fails the
  array is returned untouched.
\<close>

theorem cdbscan_cluster_frame:
  assumes "0 < n \<longrightarrow> length pts = nat n"
  shows "\<exists>r pts'. cdbscan_cluster heap (Some pts) n params = Some (r, Some pts')
     \<and> length pts' = length pts
     \<and> (\<forall>j. coords (pts' ! j) = coords (pts ! j) \<and> dimensions (pts' ! j) = dimensions (pts ! j))
     \<and> (if cdbscan_validate_params params \<and> cdbscan_validate_data (Some pts) n
         then \<forall>j<nat n. index (pts' ! j) = int j
         else pts' = pts)"
proof (cases "cdbscan_validate_params params \<and> cdbscan_validate_data (Some pts) n")
  case False
  then have "cdbscan_cluster heap (Some pts) n params = Some (-1, Some pts)"
    using cdbscan_cluster_invalid[of params "Some pts" n heap] by blast
  then show ?thesis unfolding if_not_P[OF False] by simp
next
  case True
  then have vp: "cdbscan_validate_params params" and vd: "cdbscan_validate_data (Some pts) n"
    by simp_all
  have len: "length pts = nat n" using assms validate_dataD(1)[OF vd] by simp
  note ip = init_points_nth[OF len]
  have base: "length (init_points pts n) = length pts
     \<and> (\<forall>j. coords (init_points pts n ! j) = coords (pts ! j)
            \<and> dimensions (init_points pts n ! j) = dimensions (pts ! j))
     \<and> (\<forall>j<nat n. index (init_points pts n ! j) = int j)"
    using ip by simp
  have "\<exists>r pts'. cdbscan_cluster heap (Some pts) n params = Some (r, Some pts')
          \<and> same_geometry (init_points pts n) pts'"
    using cdbscan_cluster_outcome[OF vp vd len, of heap]
    by (cases "fst (alloc heap) \<and> fst (alloc (snd (alloc heap)))") auto
  then obtain r pts' where r: "cdbscan_cluster heap (Some pts) n params = Some (r, Some pts')"
    and g: "same_geometry (init_points pts n) pts'" by blast
  have "length pts' = length pts
     \<and> (\<forall>j. coords (pts' ! j) = coords (pts ! j) \<and> dimensions (pts' ! j) = dimensions (pts ! j))
     \<and> (\<forall>j<nat n. index (pts' ! j) = int j)"
    using base g unfolding same_geometry_def by metis
  then show ?thesis unfolding if_P[OF True] using r by simp
qed

theorem cdbscan_cluster_frame_witness:
  "cdbscan_cluster [] (Some [lpt 0 5 9, lpt 1 5 9]) 2 (euclid_params 2 1 0)
     = Some (1, Some [lpt 0 0 0, lpt 1 0 1])
   \<and> cdbscan_cluster [] (Some [lpt 0 5 9, lpt 1 5 9]) 2 (euclid_params 0 1 0)
     = Some (-1, Some [lpt 0 5 9, lpt 1 5 9])"
proof -
  have l: "0 < (2::int) \<longrightarrow> length [lpt 0 5 9, lpt 1 5 9] = nat 2" by simp
  have a: "cdbscan_cluster [] (Some [lpt 0 5 9, lpt 1 5 9]) 2 (euclid_params 2 1 0)
     = Some (1, Some [lpt 0 0 0, lpt 1 0 1])"
    by (simp add: cdbscan_cluster_def cdbscan_validate_params_def cdbscan_validate_data_def
          euclid_params_def lpt_def init_points_def upt_conv_Cons Let_def cluster_loop.simps
          CDBSCAN_UNCLASSIFIED_def CDBSCAN_NOISE_def buffer_fill_def
          cdbscan_region_query_custom_def calculate_distance_def cdbscan_euclidean_distance_def
          expand_cluster_def expand_cluster_with_def set_cluster_id_def expand_seeds.simps)
  have b: "cdbscan_cluster [] (Some [lpt 0 5 9, lpt 1 5 9]) 2 (euclid_params 0 1 0)
     = Some (-1, Some [lpt 0 5 9, lpt 1 5 9])"
    by (simp add: cdbscan_cluster_def cdbscan_validate_params_def euclid_params_def)
  from cdbscan_cluster_frame[OF l, of "[]" "euclid_params 2 1 0"] a b
  show ?thesis by simp
qed


text \<open>
  Claim C6, as amended. When \<open>cdbscan_cluster\<close> returns \<open>-1\<close> because the parameters or
  the data fail validation, the point array is exactly as before the call. When it returns
  \<open>-1\<close> because a working buffer could not be allocated, every label has already been
  reset to \<open>CDBSCAN_UNCLASSIFIED\<close> (the reset loop runs before the allocation). In every
  other case the call returns a non-negative count.
\<close>

theorem cdbscan_cluster_failure_labels:
  assumes "0 < n \<longrightarrow> length pts = nat n"
  shows "(\<not> cdbscan_validate_params params \<or> \<not> cdbscan_validate_data points n
            \<longrightarrow> cdbscan_cluster heap points n params = Some (-1, points))
     \<and> (cdbscan_validate_params params \<and> cdbscan_validate_data (Some pts) n \<longrightarrow>
          (if fst (alloc heap) \<and> fst (alloc (snd (alloc heap)))
           then \<exists>r pts'. cdbscan_cluster heap (Some pts) n params = Some (r, Some pts') \<and> 0 \<le> r
           else cdbscan_cluster heap (Some pts) n params = Some (-1, Some (init_points pts n))
                \<and> (\<forall>j<nat n. cluster_id (init_points pts n ! j) = CDBSCAN_UNCLASSIFIED)))"
proof (intro conjI impI)
  assume "\<not> cdbscan_validate_params params \<or> \<not> cdbscan_validate_data points n"
  then show "cdbscan_cluster heap points n params = Some (-1, points)"
    by (rule cdbscan_cluster_invalid)
next
  assume v: "cdbscan_validate_params params \<and> cdbscan_validate_data (Some pts) n"
  then have vp: "cdbscan_validate_params params" and vd: "cdbscan_validate_data (Some pts) n"
    by simp_all
  have len: "length pts = nat n" using assms validate_dataD(1)[OF vd] by simp
  note o = cdbscan_cluster_outcome[OF vp vd len, of heap]
  have u: "\<forall>j<nat n. cluster_id (init_points pts n ! j) = CDBSCAN_UNCLASSIFIED"
    using init_points_nth(2)[OF len] by simp
  show "if fst (alloc heap) \<and> fst (alloc (snd (alloc heap)))
        then \<exists>r pts'. cdbscan_cluster heap (Some pts) n params = Some (r, Some pts') \<and> 0 \<le> r
        else cdbscan_cluster heap (Some pts) n params = Some (-1, Some (init_points pts n))
             \<and> (\<forall>j<nat n. cluster_id (init_points pts n ! j) = CDBSCAN_UNCLASSIFIED)"
  proof (cases "fst (alloc heap) \<and> fst (alloc (snd (alloc heap)))")
    case True
    with o show ?thesis unfolding if_P[OF True] by blast
  next
    case False
    with o u show ?thesis unfolding if_not_P[OF False] by blast
  qed
qed

theorem cdbscan_cluster_failure_labels_witness:
  "cdbscan_cluster [] (Some [lpt 0 5 9]) 1 (euclid_params 0 1 0) = Some (-1, Some [lpt 0 5 9])
   \<and> cdbscan_cluster [True, False] (Some [lpt 0 5 9]) 1 (euclid_params 1 1 0)
       = Some (-1, Some (init_points [lpt 0 5 9] 1))
   \<and> cluster_id (init_points [lpt 0 5 9] 1 ! 0) = CDBSCAN_UNCLASSIFIED"
proof -
  have l: "0 < (1::int) \<longrightarrow> length [lpt 0 5 9] = nat 1" by simp
  have bad: "\<not> cdbscan_validate_params (euclid_params 0 1 0)"
    by (simp add: cdbscan_validate_params_def euclid_params_def)
  have good: "cdbscan_validate_params (euclid_params 1 1 0)
              \<and> cdbscan_validate_data (Some [lpt 0 5 9]) 1"
    by (simp add: cdbscan_validate_params_def cdbscan_validate_data_def euclid_params_def lpt_def)
  have al: "\<not> (fst (alloc [True, False]) \<and> fst (alloc (snd (alloc [True, False]))))"
    by simp
  from cdbscan_cluster_failure_labels[OF l, of "euclid_params 0 1 0" "Some [lpt 0 5 9]" "[]"] bad
  have a: "cdbscan_cluster [] (Some [lpt 0 5 9]) 1 (euclid_params 0 1 0)
           = Some (-1, Some [lpt 0 5 9])"
    by blast
  from cdbscan_cluster_failure_labels[OF l, of "euclid_params 1 1 0" None "[True, False]"]
    good
  have "if fst (alloc [True, False]) \<and> fst (alloc (snd (alloc [True, False])))
        then \<exists>r pts'. cdbscan_cluster [True, False] (Some [lpt 0 5 9]) 1 (euclid_params 1 1 0)
                         = Some (r, Some pts') \<and> 0 \<le> r
        else cdbscan_cluster [True, False] (Some [lpt 0 5 9]) 1 (euclid_params 1 1 0)
               = Some (-1, Some (init_points [lpt 0 5 9] 1))
             \<and> (\<forall>j<nat 1. cluster_id (init_points [lpt 0 5 9] 1 ! j) = CDBSCAN_UNCLASSIFIED)"
    by blast
  then have b: "cdbscan_cluster [True, False] (Some [lpt 0 5 9]) 1 (euclid_params 1 1 0)
               = Some (-1, Some (init_points [lpt 0 5 9] 1))
             \<and> (\<forall>j<nat 1. cluster_id (init_points [lpt 0 5 9] 1 ! j) = CDBSCAN_UNCLASSIFIED)"
    unfolding if_not_P[OF al] .
  then have "cluster_id (init_points [lpt 0 5 9] 1 ! 0) = CDBSCAN_UNCLASSIFIED" by simp
  with a b show ?thesis by blast
qed

theorem cdbscan_cluster_failure_labels_counterexample:
  "cdbscan_cluster [False] (Some [lpt 0 5 0]) 1 (euclid_params 1 1 0)
     = Some (-1, Some [lpt 0 (-1) 0])
   \<and> cluster_id ([lpt 0 5 0] ! 0) = 5
   \<and> cluster_id ([lpt 0 (-1) 0] ! 0) = -1"
  by (simp add: cdbscan_cluster_def cdbscan_validate_params_def cdbscan_validate_data_def
        euclid_params_def lpt_def init_points_def CDBSCAN_UNCLASSIFIED_def)

text \<open>
  Claim C7. While a cluster is expanded the seed list never holds more than \<open>num_points\<close>
  entries, so no write to the \<open>seeds\<close> buffer is out of bounds: both expansion functions
  return (the model's \<open>None\<close>, a write past the end, does not occur), and the seeds they
  leave are pairwise distinct and at most \<open>num_points\<close> many. The seed list only grows while
  the seeds are processed, so the bound holds throughout.
\<close>

theorem seed_list_within_bounds:
  assumes "cdbscan_validate_data (Some base) n" and "length base = nat n"
    and "same_geometry base pts" and "0 \<le> cid"
  shows "(\<exists>r pts' seeds'. expand_cluster pts n p cid params = Some (r, pts', seeds')
            \<and> length seeds' \<le> nat n \<and> distinct seeds')
     \<and> (\<forall>t. fst (kdtree_build heap (Some base) n) = Some t \<longrightarrow>
            (\<exists>r pts' seeds'. expand_cluster_kdtree pts n p cid params t = Some (r, pts', seeds')
                \<and> length seeds' \<le> nat n \<and> distinct seeds'))"
proof (intro conjI allI impI)
  have cid: "cid \<noteq> CDBSCAN_UNCLASSIFIED" "cid \<noteq> CDBSCAN_NOISE"
    using assms(4) by (simp_all add: CDBSCAN_UNCLASSIFIED_def CDBSCAN_NOISE_def)
  have n: "nat n = length base" using assms(2) by simp
  have Q: "region_ok (\<lambda>pts i. cdbscan_region_query_custom (Some pts) n (int i) params) base"
    by (rule region_ok_brute[OF n])
  from expand_cluster_with_spec[OF Q cid n assms(3), of p params]
  show "\<exists>r pts' seeds'. expand_cluster pts n p cid params = Some (r, pts', seeds')
            \<and> length seeds' \<le> nat n \<and> distinct seeds'"
    unfolding expand_cluster_def n by blast
  fix t assume "fst (kdtree_build heap (Some base) n) = Some t"
  then have b: "kdtree_build heap (Some base) n = (Some t, snd (kdtree_build heap (Some base) n))"
    by (metis prod.collapse)
  have "tree_mset (root t) \<subseteq># mset [0..<length base]"
    using kdtree_build_tree(3)[OF b validate_dataD(2)[OF assms(1)]] n by simp
  from region_ok_kdtree[OF this]
  have Qk: "region_ok (\<lambda>pts i. kdtree_range_query (Some t) pts i (eps params)) base" .
  from expand_cluster_with_spec[OF Qk cid n assms(3), of p params]
  show "\<exists>r pts' seeds'. expand_cluster_kdtree pts n p cid params t = Some (r, pts', seeds')
            \<and> length seeds' \<le> nat n \<and> distinct seeds'"
    unfolding expand_cluster_kdtree_def n by blast
qed


theorem seed_list_within_bounds_witness:
  "cdbscan_validate_data (Some [pt 0, pt 1, pt 5]) 3
   \<and> expand_cluster [pt 0, pt 1, pt 5] 3 0 0 (euclid_params 2 2 0)
       = Some (1, [lpt 0 0 0, lpt 1 0 0, pt 5], [1])
   \<and> (\<exists>t r pts' seeds'. fst (kdtree_build [] (Some [pt 0, pt 1, pt 5]) 3) = Some t
         \<and> expand_cluster_kdtree [pt 0, pt 1, pt 5] 3 0 0 (euclid_params 2 2 0) t
             = Some (r, pts', seeds')
         \<and> length seeds' \<le> nat 3 \<and> distinct seeds')"
proof -
  have v: "cdbscan_validate_data (Some [pt 0, pt 1, pt 5]) 3"
    by (simp add: cdbscan_validate_data_def pt_def upt_conv_Cons)
  have l: "length [pt 0, pt 1, pt 5] = nat 3" by simp
  have c: "(0::int) \<le> 0" by simp
  have e: "expand_cluster [pt 0, pt 1, pt 5] 3 0 0 (euclid_params 2 2 0)
       = Some (1, [lpt 0 0 0, lpt 1 0 0, pt 5], [1])"
    by (simp add: expand_cluster_def expand_cluster_with_def euclid_params_def pt_def lpt_def
          upt_conv_Cons Let_def CDBSCAN_UNCLASSIFIED_def CDBSCAN_NOISE_def buffer_fill_def
          cdbscan_region_query_custom_def calculate_distance_def cdbscan_euclidean_distance_def
          set_cluster_id_def expand_seeds.simps)
  have h: "\<forall>b\<in>set ([] :: bool list). b" by simp
  from kdtree_build_served[OF h, of 3 "[pt 0, pt 1, pt 5]"]
  obtain t where t: "fst (kdtree_build [] (Some [pt 0, pt 1, pt 5]) 3) = Some t" by auto
  from seed_list_within_bounds[OF v l same_geometry_refl c, of 0 "euclid_params 2 2 0" "[]"] t
  have "\<exists>r pts' seeds'. expand_cluster_kdtree [pt 0, pt 1, pt 5] 3 0 0 (euclid_params 2 2 0) t
             = Some (r, pts', seeds') \<and> length seeds' \<le> nat 3 \<and> distinct seeds'"
    by blast
  with v e t show ?thesis by blast
qed

section \<open>Labels during and after a run\<close>

text \<open>After validation and the two buffer allocations, the run of \<open>cdbscan_cluster\<close> is the
  run of these iterations from index 0, counter 0 and the reset array.\<close>

lemma cdbscan_cluster_steps:
  assumes "cdbscan_validate_params params" "cdbscan_validate_data (Some pts) n"
    and "fst (alloc heap)" "fst (alloc (snd (alloc heap)))"
  shows "cdbscan_cluster heap (Some pts) n params =
     (case cluster_steps (run_tree heap (init_points pts n) n params)
             (run_params (run_tree heap (init_points pts n) n params) params)
             n (nat n) 0 0 (init_points pts n) of
        None \<Rightarrow> None
      | Some (cid, points2) \<Rightarrow> Some (cid, Some points2))"
  using cdbscan_cluster_unfold[OF assms(1,2), of heap] assms(3,4)
  by (simp add: cluster_loop_steps)

text \<open>
  The moves of a label between two moments with counters \<open>c1 \<le> c2\<close>: it stays, or goes
  from unclassified to noise, or from unclassified or noise to a cluster started in
  between, or from an earlier cluster to a cluster started in between, and this last move
  only under the condition \<open>seed\<close> on the new label.
\<close>

definition label_forward :: "int \<Rightarrow> int \<Rightarrow> (int \<Rightarrow> bool) \<Rightarrow> int \<Rightarrow> int \<Rightarrow> bool" where
  "label_forward c1 c2 seed a b \<longleftrightarrow>
     a = b
     \<or> (a = CDBSCAN_UNCLASSIFIED \<and> (b = CDBSCAN_NOISE \<or> (c1 \<le> b \<and> b < c2)))
     \<or> (a = CDBSCAN_NOISE \<and> c1 \<le> b \<and> b < c2)
     \<or> (0 \<le> a \<and> a < c1 \<and> c1 \<le> b \<and> b < c2 \<and> seed b)"

text \<open>
  Point \<open>s\<close> starts cluster \<open>b\<close> with \<open>j\<close> among its initial seeds, in the run from the state
  \<open>(i, cid, ps)\<close>: when the loop reaches \<open>s\<close> the counter is \<open>b\<close>, point \<open>s\<close> is unclassified
  and its neighbourhood has at least \<open>min_pts\<close> points, \<open>j\<close> one of them.
\<close>

definition seeded_by ::
  "kdtree_t option \<Rightarrow> cdbscan_params \<Rightarrow> int \<Rightarrow> nat \<Rightarrow> int \<Rightarrow> cdbscan_point list
     \<Rightarrow> nat \<Rightarrow> nat \<Rightarrow> int \<Rightarrow> bool" where
  "seeded_by tree params n i cid ps j s b =
     (case cluster_steps tree params n (s - i) i cid ps of
        None \<Rightarrow> False
      | Some (c, qs) \<Rightarrow>
          c = b \<and> cluster_id (qs ! s) = CDBSCAN_UNCLASSIFIED
          \<and> min_pts params \<le> int (length (region_of tree params n qs s))
          \<and> j \<in> set (region_of tree params n qs s))"

lemma label_forward_trans:
  assumes "label_forward c c' s1 a m" "label_forward c' c'' s2 m b"
    and "0 \<le> c" "c \<le> c'" "c' \<le> c''" "label_below c a"
    and "\<And>x. s1 x \<Longrightarrow> s x" "\<And>x. s2 x \<Longrightarrow> s x"
  shows "label_forward c c'' s a b"
  using assms
  unfolding label_forward_def label_below_def CDBSCAN_UNCLASSIFIED_def CDBSCAN_NOISE_def
  by auto

lemma label_forward_refl: "label_forward c c' s a a"
  by (simp add: label_forward_def)

lemma cluster_step_forward:
  assumes Q: "region_ok (region_of tree params n) base" and n: "nat n = length base"
    and geo: "same_geometry base qs" and c0: "0 \<le> c" and i: "i < length base"
    and below: "\<forall>j<nat n. label_below c (cluster_id (qs ! j))"
  shows "\<exists>c' qs'. cluster_step tree params n i c qs = Some (c', qs') \<and> same_geometry base qs'
     \<and> c \<le> c' \<and> (\<forall>j<nat n. label_below c' (cluster_id (qs' ! j)))
     \<and> (\<forall>j<nat n. label_forward c c' (seeded_by tree params n i c qs j i)
                     (cluster_id (qs ! j)) (cluster_id (qs' ! j)))"
proof -
  let ?Q = "region_of tree params n"
  from cluster_step_spec[OF Q n geo c0 i] obtain c' qs' where
    st: "cluster_step tree params n i c qs = Some (c', qs')" and g: "same_geometry base qs'"
    and q: "?Q qs i = ?Q base i"
    and r: "if cluster_id (qs ! i) \<noteq> CDBSCAN_UNCLASSIFIED then c' = c \<and> qs' = qs
         else if int (length (?Q base i)) < min_pts params
              then c' = c \<and> qs' = set_cluster_id qs i CDBSCAN_NOISE
              else c' = c + 1 \<and> expanded_from c (?Q base i) qs qs'"
    by blast
  have len: "length qs = length base" using geo by (simp add: same_geometry_def)
  have sd: "seeded_by tree params n i c qs j i b \<longleftrightarrow>
              c = b \<and> cluster_id (qs ! i) = CDBSCAN_UNCLASSIFIED
              \<and> min_pts params \<le> int (length (?Q base i)) \<and> j \<in> set (?Q base i)" for j b
    by (simp add: seeded_by_def q)
  have cc: "c \<le> c'" using r by (auto split: if_splits)
  have fw: "c \<le> c' \<and> label_below c' (cluster_id (qs' ! j))
        \<and> label_forward c c' (seeded_by tree params n i c qs j i)
             (cluster_id (qs ! j)) (cluster_id (qs' ! j))" if j: "j < nat n" for j
  proof (cases "cluster_id (qs ! i) \<noteq> CDBSCAN_UNCLASSIFIED")
    case True
    with r have "c' = c" "qs' = qs" by simp_all
    then show ?thesis using below j by (simp add: label_forward_refl)
  next
    case False
    then have U: "cluster_id (qs ! i) = CDBSCAN_UNCLASSIFIED" by simp
    show ?thesis
    proof (cases "int (length (?Q base i)) < min_pts params")
      case True
      with r U have e: "c' = c" "qs' = set_cluster_id qs i CDBSCAN_NOISE" by simp_all
      have nth: "cluster_id (qs' ! j) = (if j = i then CDBSCAN_NOISE else cluster_id (qs ! j))"
        using e(2) i len by (simp add: cluster_id_set_cluster_id)
      show ?thesis using below j U e(1) nth
        by (auto simp: label_forward_def label_below_def)
    next
      case core: False
      with r U have e: "c' = c + 1" "expanded_from c (?Q base i) qs qs'" by simp_all
      from e(2) have x: "if j \<in> set (?Q base i) then cluster_id (qs' ! j) = c
          else cluster_id (qs' ! j) = cluster_id (qs ! j)
               \<or> ((cluster_id (qs ! j) = CDBSCAN_UNCLASSIFIED
                    \<or> cluster_id (qs ! j) = CDBSCAN_NOISE) \<and> cluster_id (qs' ! j) = c)"
        unfolding expanded_from_def by blast
      have b: "label_below c (cluster_id (qs ! j))" using below j by simp
      show ?thesis
      proof (cases "j \<in> set (?Q base i)")
        case True
        with x have l: "cluster_id (qs' ! j) = c" by simp
        have "seeded_by tree params n i c qs j i c" using sd U core True by simp
        then show ?thesis using l e(1) b c0
          by (auto simp: label_forward_def label_below_def)
      next
        case False
        with x show ?thesis using e(1) b c0
          by (auto simp: label_forward_def label_below_def)
      qed
    qed
  qed
  show ?thesis using st g cc fw by auto
qed

lemma seeded_by_shift:
  assumes "cluster_steps tree params n k i c qs = Some (c1, q1)" "i + k \<le> s"
  shows "seeded_by tree params n (i + k) c1 q1 j s b = seeded_by tree params n i c qs j s b"
proof -
  have "s - i = k + (s - (i + k))" using assms(2) by simp
  then have "cluster_steps tree params n (s - i) i c qs
             = cluster_steps tree params n (s - (i + k)) (i + k) c1 q1"
    using cluster_steps_add[of tree params n k "s - (i + k)" i c qs] assms(1) by simp
  then show ?thesis by (simp add: seeded_by_def)
qed

lemma cluster_steps_forward:
  assumes Q: "region_ok (region_of tree params n) base" and n: "nat n = length base"
  shows "same_geometry base qs \<Longrightarrow> 0 \<le> c \<Longrightarrow> i + k \<le> length base \<Longrightarrow>
     \<forall>j<nat n. label_below c (cluster_id (qs ! j)) \<Longrightarrow>
     \<exists>c' qs'. cluster_steps tree params n k i c qs = Some (c', qs') \<and> same_geometry base qs'
       \<and> c \<le> c' \<and> (\<forall>j<nat n. label_below c' (cluster_id (qs' ! j)))
       \<and> (\<forall>j<nat n. label_forward c c'
                       (\<lambda>b. \<exists>s\<in>{i..<i + k}. seeded_by tree params n i c qs j s b)
                       (cluster_id (qs ! j)) (cluster_id (qs' ! j)))"
proof (induction k arbitrary: i c qs)
  case 0
  then show ?case by (simp add: label_forward_refl)
next
  case (Suc k)
  note geo = Suc.prems(1) and c0 = Suc.prems(2) and below = Suc.prems(4)
  have i: "i < length base" and ik: "(i + 1) + k \<le> length base" using Suc.prems(3) by simp_all
  from cluster_step_forward[OF Q n geo c0 i below] obtain c1 q1 where
    st: "cluster_step tree params n i c qs = Some (c1, q1)" and g1: "same_geometry base q1"
    and c1: "c \<le> c1" and b1: "\<forall>j<nat n. label_below c1 (cluster_id (q1 ! j))"
    and f1: "\<forall>j<nat n. label_forward c c1 (seeded_by tree params n i c qs j i)
                     (cluster_id (qs ! j)) (cluster_id (q1 ! j))"
    by blast
  have c10: "0 \<le> c1" using c0 c1 by simp
  from Suc.IH[OF g1 c10 ik b1] obtain c2 q2 where
    r: "cluster_steps tree params n k (i + 1) c1 q1 = Some (c2, q2)" and g2: "same_geometry base q2"
    and c2: "c1 \<le> c2" and b2: "\<forall>j<nat n. label_below c2 (cluster_id (q2 ! j))"
    and f2: "\<forall>j<nat n. label_forward c1 c2
                       (\<lambda>b. \<exists>s\<in>{i + 1..<i + 1 + k}. seeded_by tree params n (i + 1) c1 q1 j s b)
                       (cluster_id (q1 ! j)) (cluster_id (q2 ! j))"
    by blast
  have one: "cluster_steps tree params n 1 i c qs = Some (c1, q1)" using st by simp
  have all: "cluster_steps tree params n (Suc k) i c qs = Some (c2, q2)" using st r by simp
  have f: "label_forward c c2 (\<lambda>b. \<exists>s\<in>{i..<i + Suc k}. seeded_by tree params n i c qs j s b)
             (cluster_id (qs ! j)) (cluster_id (q2 ! j))" if j: "j < nat n" for j
  proof (rule label_forward_trans[OF _ _ c0 c1 c2])
    show "label_forward c c1 (seeded_by tree params n i c qs j i)
            (cluster_id (qs ! j)) (cluster_id (q1 ! j))" using f1 j by simp
    show "label_forward c1 c2
            (\<lambda>b. \<exists>s\<in>{i + 1..<i + 1 + k}. seeded_by tree params n (i + 1) c1 q1 j s b)
            (cluster_id (q1 ! j)) (cluster_id (q2 ! j))" using f2 j by simp
    show "label_below c (cluster_id (qs ! j))" using below j by simp
    show "\<And>x. seeded_by tree params n i c qs j i x \<Longrightarrow>
            \<exists>s\<in>{i..<i + Suc k}. seeded_by tree params n i c qs j s x" by auto
    show "\<And>x. \<exists>s\<in>{i + 1..<i + 1 + k}. seeded_by tree params n (i + 1) c1 q1 j s x \<Longrightarrow>
            \<exists>s\<in>{i..<i + Suc k}. seeded_by tree params n i c qs j s x"
    proof -
      fix x assume "\<exists>s\<in>{i + 1..<i + 1 + k}. seeded_by tree params n (i + 1) c1 q1 j s x"
      then obtain s where s: "i + 1 \<le> s" "s < i + 1 + k"
        "seeded_by tree params n (i + 1) c1 q1 j s x" by auto
      from seeded_by_shift[OF one s(1)] s(3)
      have "seeded_by tree params n i c qs j s x" by simp
      then show "\<exists>s\<in>{i..<i + Suc k}. seeded_by tree params n i c qs j s x"
        using s(1,2) by auto
    qed
  qed
  show ?case using all g2 c1 c2 b2 f by auto
qed


lemma label_forward_mono:
  "label_forward c c' s1 a b \<Longrightarrow> (\<And>x. s1 x \<Longrightarrow> s x) \<Longrightarrow> label_forward c c' s a b"
  unfolding label_forward_def by blast

text \<open>
  Claim C1, as amended. Take the run of the main loop of \<open>cdbscan_cluster\<close> from a state
  \<open>(i, cid, ps)\<close> whose cluster labels are below \<open>cid\<close> (the initial state has \<open>i = 0\<close>,
  \<open>cid = 0\<close> and every label unclassified), with or without the tree, and two moments of it,
  after \<open>k1 \<le> k2\<close> further iterations. Between them a label stays, or goes from
  unclassified to noise, or from unclassified or noise to a cluster started between the two
  moments. A cluster label is overwritten only by the index \<open>b\<close> of a cluster started between
  the two moments, and only when the point is an initial seed of that cluster: it lies in
  the neighbourhood of the point that the loop found unclassified, with at least \<open>min_pts\<close>
  neighbours, when the counter was \<open>b\<close>. No label goes back to noise or unclassified. The
  iterations are those of \<open>cluster_loop\<close>.
\<close>

theorem cluster_labels_move_forward:
  assumes valid: "cdbscan_validate_data (Some base) n" and len: "length base = nat n"
    and tree: "tree = None \<or> tree = fst (kdtree_build heap (Some base) n)"
    and geo: "same_geometry base ps" and cid: "0 \<le> cid"
    and below: "\<forall>j<nat n. label_below cid (cluster_id (ps ! j))"
    and k: "k1 \<le> k2" "i + k2 \<le> nat n"
  shows "\<exists>c1 ps1 c2 ps2.
       cluster_steps tree params n k1 i cid ps = Some (c1, ps1)
     \<and> cluster_steps tree params n k2 i cid ps = Some (c2, ps2)
     \<and> cid \<le> c1 \<and> c1 \<le> c2
     \<and> (\<forall>j<nat n. label_forward c1 c2
                     (\<lambda>b. \<exists>s\<in>{i + k1..<i + k2}. seeded_by tree params n i cid ps j s b)
                     (cluster_id (ps1 ! j)) (cluster_id (ps2 ! j)))
     \<and> cluster_loop tree params n i cid ps
         = cluster_steps tree params n (nat n - i) i cid ps"
proof -
  have Q: "region_ok (region_of tree params n) base"
    by (rule tree_region_ok[OF valid len tree])
  have n: "nat n = length base" using len by simp
  have ik1: "i + k1 \<le> length base" using k len by simp
  from cluster_steps_forward[OF Q n geo cid ik1 below] obtain c1 ps1 where
    s1: "cluster_steps tree params n k1 i cid ps = Some (c1, ps1)"
    and g1: "same_geometry base ps1" and c1: "cid \<le> c1"
    and b1: "\<forall>j<nat n. label_below c1 (cluster_id (ps1 ! j))"
    by blast
  have c10: "0 \<le> c1" using cid c1 by simp
  have ik2: "(i + k1) + (k2 - k1) \<le> length base" using k len by simp
  from cluster_steps_forward[OF Q n g1 c10 ik2 b1] obtain c2 ps2 where
    s2: "cluster_steps tree params n (k2 - k1) (i + k1) c1 ps1 = Some (c2, ps2)"
    and c2: "c1 \<le> c2"
    and f2: "\<forall>j<nat n. label_forward c1 c2
               (\<lambda>b. \<exists>s\<in>{i + k1..<i + k1 + (k2 - k1)}. seeded_by tree params n (i + k1) c1 ps1 j s b)
               (cluster_id (ps1 ! j)) (cluster_id (ps2 ! j))"
    by blast
  have "cluster_steps tree params n (k1 + (k2 - k1)) i cid ps = Some (c2, ps2)"
    using s1 s2 by (simp add: cluster_steps_add)
  then have s2': "cluster_steps tree params n k2 i cid ps = Some (c2, ps2)"
    using k(1) by simp
  have f: "label_forward c1 c2
             (\<lambda>b. \<exists>s\<in>{i + k1..<i + k2}. seeded_by tree params n i cid ps j s b)
             (cluster_id (ps1 ! j)) (cluster_id (ps2 ! j))" if j: "j < nat n" for j
  proof (rule label_forward_mono)
    show "label_forward c1 c2
               (\<lambda>b. \<exists>s\<in>{i + k1..<i + k1 + (k2 - k1)}. seeded_by tree params n (i + k1) c1 ps1 j s b)
               (cluster_id (ps1 ! j)) (cluster_id (ps2 ! j))" using f2 j by simp
    fix x assume "\<exists>s\<in>{i + k1..<i + k1 + (k2 - k1)}. seeded_by tree params n (i + k1) c1 ps1 j s x"
    then obtain s where s: "i + k1 \<le> s" "s < i + k1 + (k2 - k1)"
      "seeded_by tree params n (i + k1) c1 ps1 j s x" by auto
    from seeded_by_shift[OF s1 s(1)] s(3)
    have "seeded_by tree params n i cid ps j s x" by simp
    then show "\<exists>s\<in>{i + k1..<i + k2}. seeded_by tree params n i cid ps j s x"
      using s(1,2) k(1) by auto
  qed
  show ?thesis using s1 s2' c1 c2 f cluster_loop_steps by auto
qed

theorem cluster_labels_move_forward_counterexample:
  "cdbscan_cluster [] (Some (border_points [-1, -1, -1, -1, -1, -1, -1])) 7 (euclid_params 10 4 0)
     = Some (2, Some (border_points [0, 1, 0, 0, 1, 1, 1]))
   \<and> expand_cluster (border_points [-1, -1, -1, -1, -1, -1, -1]) 7 0 0 (euclid_params 10 4 0)
     = Some (1, border_points [0, 0, 0, 0, -1, -1, -1], [3, 1, 2])
   \<and> cluster_id (border_points [0, 0, 0, 0, -1, -1, -1] ! 1) = 0
   \<and> expand_cluster (border_points [0, 0, 0, 0, -1, -1, -1]) 7 4 1 (euclid_params 10 4 0)
     = Some (1, border_points [0, 1, 0, 0, 1, 1, 1], [1, 6, 5])
   \<and> cluster_id (border_points [0, 1, 0, 0, 1, 1, 1] ! 1) = 1"
  by (simp add: run_eval border_points_def)

theorem cluster_labels_move_forward_witness:
  "cluster_steps None (euclid_params 10 4 0) 7 1 0 0 (border_points [-1, -1, -1, -1, -1, -1, -1])
     = Some (1, border_points [0, 0, 0, 0, -1, -1, -1])
   \<and> cluster_steps None (euclid_params 10 4 0) 7 5 0 0 (border_points [-1, -1, -1, -1, -1, -1, -1])
     = Some (2, border_points [0, 1, 0, 0, 1, 1, 1])
   \<and> label_forward 1 2
        (\<lambda>b. \<exists>s\<in>{0 + 1..<0 + 5}. seeded_by None (euclid_params 10 4 0) 7 0 0
                 (border_points [-1, -1, -1, -1, -1, -1, -1]) 1 s b)
        (cluster_id (border_points [0, 0, 0, 0, -1, -1, -1] ! 1))
        (cluster_id (border_points [0, 1, 0, 0, 1, 1, 1] ! 1))
   \<and> seeded_by None (euclid_params 10 4 0) 7 0 0 (border_points [-1, -1, -1, -1, -1, -1, -1]) 1 4 1"
proof -
  let ?ini = "border_points [-1, -1, -1, -1, -1, -1, -1]"
  let ?mid = "border_points [0, 0, 0, 0, -1, -1, -1]"
  let ?fin = "border_points [0, 1, 0, 0, 1, 1, 1]"
  let ?prm = "euclid_params 10 4 0"
  have v: "cdbscan_validate_data (Some ?ini) 7"
    by (simp add: cdbscan_validate_data_def border_points_def lpt_def upt_conv_Cons)
  have l: "length ?ini = nat 7" by (simp add: border_points_def)
  have t: "(None :: kdtree_t option) = None \<or> None = fst (kdtree_build [] (Some ?ini) 7)" by simp
  have c: "(0::int) \<le> 0" by simp
  have k: "(1::nat) \<le> 5" "(0::nat) + 5 \<le> nat 7" by simp_all
  have below: "\<forall>j<nat 7. label_below 0 (cluster_id (?ini ! j))"
  proof (intro allI impI)
    fix j :: nat assume "j < nat 7"
    then consider "j = 0" | "j = 1" | "j = 2" | "j = 3" | "j = 4" | "j = 5" | "j = 6" by force
    then show "label_below 0 (cluster_id (?ini ! j))"
      by cases (simp_all add: border_points_def lpt_def label_below_def CDBSCAN_UNCLASSIFIED_def)
  qed
  have e1: "cluster_steps None ?prm 7 1 0 0 ?ini = Some (1, ?mid)"
    by (simp add: cluster_step_def run_eval border_points_def)
  have e4: "cluster_steps None ?prm 7 4 0 0 ?ini = Some (1, ?mid)"
    by (simp add: eval_nat_numeral cluster_step_def run_eval border_points_def)
  have e5: "cluster_steps None ?prm 7 5 0 0 ?ini = Some (2, ?fin)"
    by (simp add: eval_nat_numeral cluster_step_def run_eval border_points_def)
  have sd: "seeded_by None ?prm 7 0 0 ?ini 1 4 1"
    unfolding seeded_by_def using e4
    by (simp add: region_of_def run_eval border_points_def)
  from cluster_labels_move_forward[OF v l t same_geometry_refl c below k, of ?prm]
  obtain c1 ps1 c2 ps2 where r:
    "cluster_steps None ?prm 7 1 0 0 ?ini = Some (c1, ps1)"
    "cluster_steps None ?prm 7 5 0 0 ?ini = Some (c2, ps2)"
    "\<forall>j<nat 7. label_forward c1 c2
        (\<lambda>b. \<exists>s\<in>{0 + 1..<0 + 5}. seeded_by None ?prm 7 0 0 ?ini j s b)
        (cluster_id (ps1 ! j)) (cluster_id (ps2 ! j))"
    by blast
  from r(1) e1 r(2) e5 have "c1 = 1" "ps1 = ?mid" "c2 = 2" "ps2 = ?fin" by simp_all
  with r(3) have "label_forward 1 2
        (\<lambda>b. \<exists>s\<in>{0 + 1..<0 + 5}. seeded_by None ?prm 7 0 0 ?ini 1 s b)
        (cluster_id (?mid ! 1)) (cluster_id (?fin ! 1))"
    by simp
  with e1 e5 sd show ?thesis by blast
qed




section \<open>Clustering with and without the spatial index\<close>

text \<open>
  Over the reals and with every allocation of either run served: for valid parameters with
  the Euclidean metric and valid data, the run of \<open>cdbscan_cluster\<close> with the spatial index
  enabled (\<open>use_kdtree\<close> non-zero) and the run with it disabled (\<open>use_kdtree = 0\<close>) on the
  same points return the same cluster count and leave the same \<open>cluster_id\<close> in every
  point (the whole point arrays are equal). This is the algorithm as intended; it says
  nothing of rounding in the C doubles nor of a refused allocation.
\<close>

theorem cdbscan_cluster_kdtree_eq_brute_force:
  assumes vp: "cdbscan_validate_params params" and vd: "cdbscan_validate_data (Some pts) n"
    and len: "length pts = nat n"
    and euclid: "dist_type params = CDBSCAN_DIST_EUCLIDEAN"
    and served: "\<forall>b\<in>set heap. b" "\<forall>b\<in>set heap'. b"
    and u: "u \<noteq> 0"
  shows "\<exists>count pts'.
           cdbscan_cluster heap (Some pts) n (params\<lparr>use_kdtree := u\<rparr>) = Some (count, Some pts')
         \<and> cdbscan_cluster heap' (Some pts) n (params\<lparr>use_kdtree := 0\<rparr>) = Some (count, Some pts')
         \<and> 0 \<le> count \<and> length pts' = length pts"
proof -
  let ?base = "init_points pts n"
  let ?pu = "params\<lparr>use_kdtree := u\<rparr>" and ?p0 = "params\<lparr>use_kdtree := 0\<rparr>"
  let ?tu = "run_tree heap ?base n ?pu" and ?t0 = "run_tree heap' ?base n ?p0"
  note ip = init_points_nth[OF len]
  have vb: "cdbscan_validate_data (Some ?base) n"
    by (rule validate_data_geometry[OF vd ip(3) ip(4)])
  have lb: "length ?base = nat n" using ip(1) len by simp
  have vpu: "cdbscan_validate_params ?pu" and vp0: "cdbscan_validate_params ?p0"
    using vp by simp_all
  have bufs: "fst (alloc heap)" "fst (alloc (snd (alloc heap)))"
    "fst (alloc heap')" "fst (alloc (snd (alloc heap')))"
    using alloc_served[OF served(1)] alloc_served[OF served(2)] alloc_served by blast+
  have Q1: "region_ok (region_of ?tu (run_params ?tu ?pu) n) ?base"
    by (rule run_region_ok[OF vb lb])
  have Q2: "region_ok (region_of ?t0 (run_params ?t0 ?p0) n) ?base"
    by (rule run_region_ok[OF vb lb])
  have ag: "region_of ?tu (run_params ?tu ?pu) n ?base i
            = region_of ?t0 (run_params ?t0 ?p0) n ?base i" if "i < length ?base" for i
  proof -
    from that lb have i: "i < nat n" by simp
    have "region_of ?tu (run_params ?tu ?pu) n ?base i
          = cdbscan_region_query_custom (Some pts) n (int i) ?pu"
      by (rule run_region_eq[OF vd len _ i]) (rule disjI2, rule disjI2, rule served(1))
    moreover have "region_of ?t0 (run_params ?t0 ?p0) n ?base i
          = cdbscan_region_query_custom (Some pts) n (int i) ?p0"
      by (rule run_region_eq[OF vd len _ i]) simp
    ultimately show ?thesis by simp
  qed
  have m: "min_pts (run_params ?tu ?pu) = min_pts (run_params ?t0 ?p0)"
    by (simp add: run_params_def)
  have loop: "cluster_loop ?tu (run_params ?tu ?pu) n 0 0 ?base
              = cluster_loop ?t0 (run_params ?t0 ?p0) n 0 0 ?base"
    by (rule cluster_loop_cong[OF Q1 Q2 ag m lb[symmetric]]) simp_all
  from cdbscan_cluster_outcome[OF vpu vd len, of heap] bufs
  obtain count pts' where
    r: "cdbscan_cluster heap (Some pts) n ?pu = Some (count, Some pts')"
    and c: "0 \<le> count" and g: "same_geometry ?base pts'"
    by auto
  have "cdbscan_cluster heap' (Some pts) n ?p0 = cdbscan_cluster heap (Some pts) n ?pu"
    unfolding cdbscan_cluster_unfold[OF vpu vd] cdbscan_cluster_unfold[OF vp0 vd]
    using bufs loop by simp
  moreover have "length pts' = length pts" using g ip(1) by (simp add: same_geometry_def)
  ultimately show ?thesis using r c by simp
qed

theorem cdbscan_cluster_kdtree_eq_brute_force_witness:
  "cdbscan_cluster [] (Some two_points) 4 (euclid_params 2 2 1)
     = Some (1, Some [lpt 0 (-2) 0, lpt 3 0 1, lpt 4 0 2, lpt 20 (-2) 3])
   \<and> cdbscan_cluster [] (Some two_points) 4 (euclid_params 2 2 0)
     = Some (1, Some [lpt 0 (-2) 0, lpt 3 0 1, lpt 4 0 2, lpt 20 (-2) 3])"
proof -
  have vp: "cdbscan_validate_params (euclid_params 2 2 7)"
    by (simp add: cdbscan_validate_params_def euclid_params_def)
  have vd: "cdbscan_validate_data (Some two_points) 4"
    by (simp add: cdbscan_validate_data_def two_points_def pt_def upt_conv_Cons)
  have len: "length two_points = nat 4" by (simp add: two_points_def)
  have e: "dist_type (euclid_params 2 2 7) = CDBSCAN_DIST_EUCLIDEAN"
    by (simp add: euclid_params_def)
  have pu: "(euclid_params 2 2 7)\<lparr>use_kdtree := 1\<rparr> = euclid_params 2 2 1"
    and p0: "(euclid_params 2 2 7)\<lparr>use_kdtree := 0\<rparr> = euclid_params 2 2 0"
    by (simp_all add: euclid_params_def)
  have brute: "cdbscan_cluster [] (Some two_points) 4 (euclid_params 2 2 0)
     = Some (1, Some [lpt 0 (-2) 0, lpt 3 0 1, lpt 4 0 2, lpt 20 (-2) 3])"
    by (simp add: run_eval two_points_def pt_def lpt_def euclid_params_def)
  from cdbscan_cluster_kdtree_eq_brute_force[OF vp vd len e, of "[]" "[]" 1]
  show ?thesis unfolding pu p0 using brute by auto
qed

text \<open>
  Claim C2 states that the runs of \<open>cdbscan_cluster\<close> with and without the spatial index
  return the same count and the same labels on every valid input under the Euclidean
  metric. The code departs from it when the allocation of a tree node is refused: the
  fallback to the brute-force queries is taken only when \<open>kdtree_build\<close> returns no tree,
  and a refused node leaves a tree with a null subtree. With the root node refused every
  range query is empty, every point becomes noise and the call returns 0, where the run
  without the index finds one cluster. (In the C doubles the two runs also differ when
  squared coordinate differences underflow to 0; see the range query above.)
\<close>

theorem cdbscan_cluster_refused_node:
  "cdbscan_cluster [True, True, True, True, False] (Some two_points) 4 (euclid_params 2 2 1)
     = Some (0, Some [lpt 0 (-2) 0, lpt 3 (-2) 1, lpt 4 (-2) 2, lpt 20 (-2) 3])
   \<and> cdbscan_cluster [True, True, True, True, False] (Some two_points) 4 (euclid_params 2 2 0)
     = Some (1, Some [lpt 0 (-2) 0, lpt 3 0 1, lpt 4 0 2, lpt 20 (-2) 3])"
proof -
  have b: "\<And>i js ps d dims. kdtree_build_recursive [False] (i # js) ps d dims = (Null, [])"
    by (subst kdtree_build_recursive.simps) simp
  have k: "cdbscan_cluster [True, True, True, True, False] (Some two_points) 4 (euclid_params 2 2 1)
     = Some (0, Some [lpt 0 (-2) 0, lpt 3 (-2) 1, lpt 4 (-2) 2, lpt 20 (-2) 3])"
    by (simp add: run_eval two_points_def kdtree_build_def b kdtree_range_query_def)
  have f: "cdbscan_cluster [True, True, True, True, False] (Some two_points) 4 (euclid_params 2 2 0)
     = Some (1, Some [lpt 0 (-2) 0, lpt 3 0 1, lpt 4 0 2, lpt 20 (-2) 3])"
    by (simp add: run_eval two_points_def)
  from k f show ?thesis by simp
qed

theorem cdbscan_cluster_refused_node_witness:
  "cdbscan_cluster [True, True, True, True, False] (Some two_points) 4 (euclid_params 2 2 1)
   \<noteq> cdbscan_cluster [True, True, True, True, False] (Some two_points) 4 (euclid_params 2 2 0)"
  using cdbscan_cluster_refused_node by simp

section \<open>The result of \<open>cdbscan_estimate_eps\<close>\<close>













section \<open>Maximality of the clusters\<close>

subsection \<open>What an expansion leaves behind\<close>

text \<open>
  A point is closed in an array when none of its neighbours is unclassified or noise.
\<close>

definition closed_at :: "region_query \<Rightarrow> cdbscan_point list \<Rightarrow> cdbscan_point list \<Rightarrow> nat \<Rightarrow> bool" where
  "closed_at Q base ps x \<longleftrightarrow>
     (\<forall>y\<in>set (Q base x). cluster_id (ps ! y) \<noteq> CDBSCAN_UNCLASSIFIED
                          \<and> cluster_id (ps ! y) \<noteq> CDBSCAN_NOISE)"

lemma label_step_kept:
  assumes "label_step cid ps qs" "cid \<noteq> CDBSCAN_UNCLASSIFIED" "cid \<noteq> CDBSCAN_NOISE"
    and "cluster_id (ps ! y) \<noteq> CDBSCAN_UNCLASSIFIED \<and> cluster_id (ps ! y) \<noteq> CDBSCAN_NOISE"
  shows "cluster_id (qs ! y) \<noteq> CDBSCAN_UNCLASSIFIED \<and> cluster_id (qs ! y) \<noteq> CDBSCAN_NOISE"
  using assms unfolding label_step_def by metis

lemma closed_at_label_step:
  assumes "closed_at Q base ps x" "label_step cid ps qs"
    "cid \<noteq> CDBSCAN_UNCLASSIFIED" "cid \<noteq> CDBSCAN_NOISE"
  shows "closed_at Q base qs x"
  using assms label_step_kept[OF assms(2,3,4)] unfolding closed_at_def by blast

lemma expand_seeds_closed:
  assumes Q: "region_ok Q base"
    and cid: "cid \<noteq> CDBSCAN_UNCLASSIFIED" "cid \<noteq> CDBSCAN_NOISE"
    and cap: "cap = length base"
  shows "same_geometry base pts \<Longrightarrow> seeds_ok pts seeds \<Longrightarrow>
     expand_seeds Q cap m cid pts seeds cur = Some (pts', seeds') \<Longrightarrow>
     (\<exists>ext. seeds' = seeds @ ext)
     \<and> (\<forall>j. cluster_id (pts ! j) = CDBSCAN_UNCLASSIFIED
             \<and> cluster_id (pts' ! j) \<noteq> CDBSCAN_UNCLASSIFIED \<longrightarrow> j \<in> set seeds')
     \<and> (\<forall>k. cur \<le> k \<and> k < length seeds' \<and> m \<le> int (length (Q base (seeds' ! k)))
            \<longrightarrow> closed_at Q base pts' (seeds' ! k))"
proof (induction "max cap (length seeds) - cur" arbitrary: pts seeds cur rule: less_induct)
  case less
  note geo = less.prems(1) and ok = less.prems(2) and res = less.prems(3)
  have len: "length pts = cap" using cap geo by (simp add: same_geometry_def)
  show ?case
  proof (cases "cur < length seeds")
    case False
    with res have "pts' = pts" "seeds' = seeds"
      by (simp_all add: expand_seeds.simps[of Q cap m cid pts seeds cur])
    then show ?thesis using False by auto
  next
    case True
    let ?s = "seeds ! cur"
    let ?nb = "Q pts ?s"
    have nbq: "?nb = Q base ?s" by (rule region_ok_query(1)[OF Q geo])
    have bf: "buffer_fill cap ?nb = Some ?nb"
      using region_ok_query(4)[OF Q geo] len by simp
    have nb: "set ?nb \<subseteq> {..<length pts}" by (rule region_ok_query(3)[OF Q geo])
    show ?thesis
    proof (cases "m \<le> int (length ?nb)")
      case False
      with res True bf
      have rec: "expand_seeds Q cap m cid pts seeds (cur + 1) = Some (pts', seeds')"
        by (simp add: expand_seeds.simps[of Q cap m cid pts seeds cur])
      have "max cap (length seeds) - (cur + 1) < max cap (length seeds) - cur"
        using True by linarith
      from less.hyps[OF this geo ok rec]
      obtain ext where ih: "seeds' = seeds @ ext"
        "\<forall>j. cluster_id (pts ! j) = CDBSCAN_UNCLASSIFIED
             \<and> cluster_id (pts' ! j) \<noteq> CDBSCAN_UNCLASSIFIED \<longrightarrow> j \<in> set seeds'"
        "\<forall>k. cur + 1 \<le> k \<and> k < length seeds' \<and> m \<le> int (length (Q base (seeds' ! k)))
            \<longrightarrow> closed_at Q base pts' (seeds' ! k)"
        by blast
      have at: "seeds' ! cur = ?s" using ih(1) True by (simp add: nth_append)
      have a: "closed_at Q base pts' (seeds' ! k)"
        if k: "cur \<le> k \<and> k < length seeds' \<and> m \<le> int (length (Q base (seeds' ! k)))" for k
      proof (cases "k = cur")
        case same: True
        then have False using k at False nbq by simp
        then show ?thesis ..
      next
        case other: False
        then have "cur + 1 \<le> k" using k by simp
        then show ?thesis using ih(3) k by simp
      qed
      show ?thesis using ih(1,2) a by blast
    next
      case core: True
      obtain p1 s1 where en: "expand_neighbors cap cid ?nb pts seeds = Some (p1, s1)"
        and rec: "expand_seeds Q cap m cid p1 s1 (cur + 1) = Some (pts', seeds')"
        using res True bf core
        by (auto simp: expand_seeds.simps[of Q cap m cid pts seeds cur] split: option.splits)
      from expand_neighbors_seeds[OF en nb cid(1)] obtain ext1 where
        ext1: "s1 = seeds @ ext1"
        "set ext1 = {j \<in> set ?nb. cluster_id (pts ! j) = CDBSCAN_UNCLASSIFIED}" by blast
      have lab1: "\<And>i. cluster_id (p1 ! i) =
         (if i \<in> set ?nb \<and> (cluster_id (pts ! i) = CDBSCAN_UNCLASSIFIED
                              \<or> cluster_id (pts ! i) = CDBSCAN_NOISE)
          then cid else cluster_id (pts ! i))"
        by (rule expand_neighbors_labels[OF en nb cid])
      have geo1: "same_geometry base p1"
        using expand_neighbors_geometry[OF en] geo same_geometry_trans by blast
      have ok1: "seeds_ok p1 s1"
        using expand_neighbors_seeds_ok[OF en nb ok cid] by simp
      from expand_neighbors_length[OF en]
      have "length s1 \<le> max cap (length seeds)" by simp
      then have "max cap (length s1) - (cur + 1) < max cap (length seeds) - cur"
        using True by linarith
      from less.hyps[OF this geo1 ok1 rec]
      obtain ext2 where ih: "seeds' = s1 @ ext2"
        "\<forall>j. cluster_id (p1 ! j) = CDBSCAN_UNCLASSIFIED
             \<and> cluster_id (pts' ! j) \<noteq> CDBSCAN_UNCLASSIFIED \<longrightarrow> j \<in> set seeds'"
        "\<forall>k. cur + 1 \<le> k \<and> k < length seeds' \<and> m \<le> int (length (Q base (seeds' ! k)))
            \<longrightarrow> closed_at Q base pts' (seeds' ! k)"
        by blast
      from expand_seeds_spec[OF Q cid cap geo1 ok1, of m "cur + 1"] rec
      have st: "label_step cid p1 pts'" by auto
      have e: "seeds' = seeds @ (ext1 @ ext2)" using ih(1) ext1(1) by simp
      have at: "seeds' ! cur = ?s" using e True by (simp add: nth_append)
      have b: "j \<in> set seeds'"
        if j: "cluster_id (pts ! j) = CDBSCAN_UNCLASSIFIED
               \<and> cluster_id (pts' ! j) \<noteq> CDBSCAN_UNCLASSIFIED" for j
      proof (cases "cluster_id (p1 ! j) = CDBSCAN_UNCLASSIFIED")
        case True
        then show ?thesis using ih(2) j by blast
      next
        case False
        then have "j \<in> set ?nb" using lab1[of j] j by (auto split: if_splits)
        then have "j \<in> set ext1" using ext1(2) j by simp
        then show ?thesis using e by simp
      qed
      have c1: "closed_at Q base p1 ?s"
        unfolding closed_at_def nbq[symmetric]
      proof
        fix y assume "y \<in> set ?nb"
        then show "cluster_id (p1 ! y) \<noteq> CDBSCAN_UNCLASSIFIED
                   \<and> cluster_id (p1 ! y) \<noteq> CDBSCAN_NOISE"
          using lab1[of y] cid by auto
      qed
      have c2: "closed_at Q base pts' ?s"
        by (rule closed_at_label_step[OF c1 st cid])
      have a: "closed_at Q base pts' (seeds' ! k)"
        if k: "cur \<le> k \<and> k < length seeds' \<and> m \<le> int (length (Q base (seeds' ! k)))" for k
      proof (cases "k = cur")
        case same: True
        then show ?thesis using c2 at by simp
      next
        case other: False
        then have "cur + 1 \<le> k" using k by simp
        then show ?thesis using ih(3) k by simp
      qed
      show ?thesis using e b a by blast
    qed
  qed
qed

lemma expand_cluster_with_closed:
  assumes Q: "region_ok Q base"
    and cid: "cid \<noteq> CDBSCAN_UNCLASSIFIED" "cid \<noteq> CDBSCAN_NOISE"
    and n: "nat n = length base" and geo: "same_geometry base pts"
    and core: "\<not> int (length (Q base p)) < min_pts params"
    and res: "expand_cluster_with Q pts n p cid params = Some (r, pts', seeds')"
    and x: "min_pts params \<le> int (length (Q base x))"
      "cluster_id (pts ! x) = CDBSCAN_UNCLASSIFIED"
      "cluster_id (pts' ! x) \<noteq> CDBSCAN_UNCLASSIFIED"
  shows "closed_at Q base pts' x"
proof -
  have len: "length pts = length base" using geo by (simp add: same_geometry_def)
  have q: "Q pts p = Q base p" and d: "distinct (Q pts p)"
    and sub: "set (Q pts p) \<subseteq> {..<length pts}"
    and bf: "buffer_fill (nat n) (Q pts p) = Some (Q pts p)"
    using region_ok_query[OF Q geo, of p] n len by simp_all
  let ?seeds = "Q pts p"
  let ?p1 = "fold (\<lambda>s ps. set_cluster_id ps s cid) ?seeds pts"
  let ?s1 = "remove_core_point ?seeds p [0..<length ?seeds]"
  from fold_set_cluster_id[OF sub, of cid]
  have g1: "same_geometry pts ?p1"
    and l1: "\<And>j. cluster_id (?p1 ! j) = (if j \<in> set ?seeds then cid else cluster_id (pts ! j))"
    by simp_all
  have len1: "length ?p1 = length pts" using g1 by (simp add: same_geometry_def)
  have set1: "set ?s1 = set ?seeds - {p}" by (rule remove_core_point_all(2)[OF d])
  have ok1: "seeds_ok ?p1 ?s1"
    using remove_core_point_all[OF d, of p] sub l1 cid len1 by (auto simp: seeds_ok_def)
  have gb1: "same_geometry base ?p1" using same_geometry_trans[OF geo g1] .
  have core': "\<not> int (length ?seeds) < min_pts params" using core q by simp
  have "(case expand_seeds Q (nat n) (min_pts params) cid ?p1 ?s1 0 of
           None \<Rightarrow> None
         | Some (points2, seeds2) \<Rightarrow> Some (1, points2, seeds2)) = Some (r, pts', seeds')"
    using res unfolding expand_cluster_with_def bf option.case if_not_P[OF core'] Let_def .
  then have r: "expand_seeds Q (nat n) (min_pts params) cid ?p1 ?s1 0 = Some (pts', seeds')"
    by (simp split: option.splits)
  from expand_seeds_spec[OF Q cid n gb1 ok1, of "min_pts params" 0] r
  have st: "label_step cid ?p1 pts'" by auto
  note cl = expand_seeds_closed[OF Q cid n gb1 ok1 r]
  from conjunct1[OF cl] obtain ext where c1: "seeds' = ?s1 @ ext" ..
  note c2 = conjunct1[OF conjunct2[OF cl]]
  note c3 = conjunct2[OF conjunct2[OF cl]]
  have seed: "closed_at Q base pts' x" if "x \<in> set seeds'"
  proof -
    from that obtain k where "k < length seeds'" "seeds' ! k = x"
      by (auto simp: in_set_conv_nth)
    then show ?thesis using c3 x(1) by auto
  qed
  show ?thesis
  proof (cases "x \<in> set ?seeds")
    case False
    then have "cluster_id (?p1 ! x) = CDBSCAN_UNCLASSIFIED" using l1[of x] x(2) by simp
    then have "x \<in> set seeds'" using c2 x(3) by blast
    then show ?thesis by (rule seed)
  next
    case True
    show ?thesis
    proof (cases "x = p")
      case False
      then have "x \<in> set seeds'" using True set1 c1 by simp
      then show ?thesis by (rule seed)
    next
      case xp: True
      have "closed_at Q base ?p1 p"
        unfolding closed_at_def q[symmetric]
      proof
        fix y assume "y \<in> set ?seeds"
        then have "cluster_id (?p1 ! y) = cid" using l1[of y] by simp
        then show "cluster_id (?p1 ! y) \<noteq> CDBSCAN_UNCLASSIFIED
                   \<and> cluster_id (?p1 ! y) \<noteq> CDBSCAN_NOISE" using cid by simp
      qed
      then show ?thesis using closed_at_label_step[OF _ st cid] xp by simp
    qed
  qed
qed

subsection \<open>An invariant of the main loop for symmetric neighbourhoods\<close>

text \<open>
  For a neighbourhood function \<open>RQ\<close> and a threshold \<open>m\<close>: the labels in use are below the
  counter, a noise point is no core point, and the neighbours of a clustered core point
  are clustered, the core points among them in the same cluster.
\<close>

definition cluster_inv :: "(nat \<Rightarrow> nat list) \<Rightarrow> int \<Rightarrow> nat \<Rightarrow> int \<Rightarrow> (nat \<Rightarrow> int) \<Rightarrow> bool" where
  "cluster_inv RQ m n cid lab \<longleftrightarrow>
     (\<forall>j<n. label_below cid (lab j))
     \<and> (\<forall>j<n. lab j = CDBSCAN_NOISE \<longrightarrow> int (length (RQ j)) < m)
     \<and> (\<forall>x<n. m \<le> int (length (RQ x)) \<and> 0 \<le> lab x \<longrightarrow>
           (\<forall>y\<in>set (RQ x). 0 \<le> lab y \<and> (m \<le> int (length (RQ y)) \<longrightarrow> lab y = lab x)))"

lemma cluster_inv_init: "cluster_inv RQ m n 0 (\<lambda>j. CDBSCAN_UNCLASSIFIED)"
  by (simp add: cluster_inv_def label_below_def CDBSCAN_UNCLASSIFIED_def CDBSCAN_NOISE_def)

lemma cluster_inv_noise:
  assumes inv: "cluster_inv RQ m n cid lab"
    and i: "lab i = CDBSCAN_UNCLASSIFIED" "int (length (RQ i)) < m"
  shows "cluster_inv RQ m n cid (lab(i := CDBSCAN_NOISE))"
proof -
  from inv have J1: "\<And>j. j < n \<Longrightarrow> label_below cid (lab j)"
    and J3: "\<And>j. j < n \<Longrightarrow> lab j = CDBSCAN_NOISE \<Longrightarrow> int (length (RQ j)) < m"
    and J4: "\<And>x y. x < n \<Longrightarrow> m \<le> int (length (RQ x)) \<Longrightarrow> 0 \<le> lab x \<Longrightarrow> y \<in> set (RQ x) \<Longrightarrow>
               0 \<le> lab y \<and> (m \<le> int (length (RQ y)) \<longrightarrow> lab y = lab x)"
    unfolding cluster_inv_def by blast+
  let ?lab = "lab(i := CDBSCAN_NOISE)"
  have a: "label_below cid (?lab j)" if "j < n" for j
    using J1[OF that] by (simp add: label_below_def)
  have b: "int (length (RQ j)) < m" if "j < n" "?lab j = CDBSCAN_NOISE" for j
    using J3[OF that(1)] that(2) i(2) by (cases "j = i") simp_all
  have c: "0 \<le> ?lab y \<and> (m \<le> int (length (RQ y)) \<longrightarrow> ?lab y = ?lab x)"
    if x: "x < n" "m \<le> int (length (RQ x))" "0 \<le> ?lab x" "y \<in> set (RQ x)" for x y
  proof -
    have xi: "x \<noteq> i" using x(2) i(2) by auto
    then have lx: "0 \<le> lab x" using x(3) by simp
    from J4[OF x(1,2) lx x(4)] have ly: "0 \<le> lab y" "m \<le> int (length (RQ y)) \<longrightarrow> lab y = lab x"
      by simp_all
    have yi: "y \<noteq> i" using ly(1) i(1) by (auto simp: CDBSCAN_UNCLASSIFIED_def)
    show ?thesis using xi yi ly by simp
  qed
  show ?thesis unfolding cluster_inv_def using a b c by blast
qed

lemma cluster_inv_expand:
  fixes lab lab' :: "nat \<Rightarrow> int"
  assumes inv: "cluster_inv RQ m n cid lab"
    and sym: "\<forall>x<n. \<forall>y\<in>set (RQ x). x \<in> set (RQ y)"
    and rng: "\<forall>x<n. set (RQ x) \<subseteq> {..<n}"
    and i: "i < n" "lab i = CDBSCAN_UNCLASSIFIED"
    and cid: "0 \<le> cid"
    and E1: "\<forall>j<n. if j \<in> set (RQ i) then lab' j = cid
                   else lab' j = lab j
                        \<or> ((lab j = CDBSCAN_UNCLASSIFIED \<or> lab j = CDBSCAN_NOISE) \<and> lab' j = cid)"
    and E3: "\<forall>x<n. m \<le> int (length (RQ x)) \<and> lab x = CDBSCAN_UNCLASSIFIED
                    \<and> lab' x \<noteq> CDBSCAN_UNCLASSIFIED \<longrightarrow>
               (\<forall>y\<in>set (RQ x). lab' y \<noteq> CDBSCAN_UNCLASSIFIED \<and> lab' y \<noteq> CDBSCAN_NOISE)"
  shows "cluster_inv RQ m n (cid + 1) lab'"
proof -
  from inv have J1: "\<And>j. j < n \<Longrightarrow> lab j = -1 \<or> lab j = -2 \<or> (0 \<le> lab j \<and> lab j < cid)"
    and J3: "\<And>j. j < n \<Longrightarrow> lab j = -2 \<Longrightarrow> int (length (RQ j)) < m"
    and J4: "\<And>x y. x < n \<Longrightarrow> m \<le> int (length (RQ x)) \<Longrightarrow> 0 \<le> lab x \<Longrightarrow> y \<in> set (RQ x) \<Longrightarrow>
               0 \<le> lab y \<and> (m \<le> int (length (RQ y)) \<longrightarrow> lab y = lab x)"
    unfolding cluster_inv_def label_below_def CDBSCAN_UNCLASSIFIED_def CDBSCAN_NOISE_def
    by blast+
  have li: "lab i = -1" using i(2) by (simp add: CDBSCAN_UNCLASSIFIED_def)
  have e1: "lab' j = cid" if "j < n" "j \<in> set (RQ i)" for j
    using E1 that by auto
  have e2: "lab' j = lab j \<or> ((lab j = -1 \<or> lab j = -2) \<and> lab' j = cid)"
    if "j < n" "j \<notin> set (RQ i)" for j
    using E1 that by (auto simp: CDBSCAN_UNCLASSIFIED_def CDBSCAN_NOISE_def)
  have e3: "lab' y \<noteq> -1 \<and> lab' y \<noteq> -2"
    if "x < n" "m \<le> int (length (RQ x))" "lab x = -1" "lab' x \<noteq> -1" "y \<in> set (RQ x)" for x y
    using E3 that by (auto simp: CDBSCAN_UNCLASSIFIED_def CDBSCAN_NOISE_def)
  have kept: "lab' x = lab x" if x: "x < n" "m \<le> int (length (RQ x))" "0 \<le> lab x" for x
  proof -
    have "x \<notin> set (RQ i)"
    proof
      assume "x \<in> set (RQ i)"
      then have "i \<in> set (RQ x)" using sym i(1) by blast
      from J4[OF x this] li show False by simp
    qed
    from e2[OF x(1) this] x(3) show ?thesis by auto
  qed
  have a: "lab' j = -1 \<or> lab' j = -2 \<or> (0 \<le> lab' j \<and> lab' j < cid + 1)" if "j < n" for j
    using J1[OF that] e1[OF that] e2[OF that] cid by (cases "j \<in> set (RQ i)") auto
  have b: "int (length (RQ j)) < m" if j: "j < n" "lab' j = -2" for j
  proof -
    have "j \<notin> set (RQ i)" using e1[OF j(1)] j(2) cid by auto
    from e2[OF j(1) this] j(2) cid have "lab j = -2" by auto
    then show ?thesis by (rule J3[OF j(1)])
  qed
  have c: "0 \<le> lab' y \<and> (m \<le> int (length (RQ y)) \<longrightarrow> lab' y = lab' x)"
    if x: "x < n" "m \<le> int (length (RQ x))" "0 \<le> lab' x" "y \<in> set (RQ x)" for x y
  proof -
    have y: "y < n" using rng x(1,4) by auto
    have xy: "x \<in> set (RQ y)" using sym x(1,4) by blast
    show ?thesis
    proof (cases "0 \<le> lab x")
      case True
      have lx: "lab' x = lab x" by (rule kept[OF x(1,2) True])
      from J4[OF x(1,2) True x(4)]
      have ly: "0 \<le> lab y" "m \<le> int (length (RQ y)) \<longrightarrow> lab y = lab x" by simp_all
      have "0 \<le> lab' y" using e1[OF y] e2[OF y] ly(1) cid by (cases "y \<in> set (RQ i)") auto
      moreover have "lab' y = lab' x" if "m \<le> int (length (RQ y))"
        using kept[OF y that ly(1)] ly(2) that lx by simp
      ultimately show ?thesis by simp
    next
      case False
      have lx: "lab x = -1" using J1[OF x(1)] J3[OF x(1)] x(2) False by auto
      have lx': "lab' x = cid"
        using e1[OF x(1)] e2[OF x(1)] lx x(3) by (cases "x \<in> set (RQ i)") auto
      have "lab' x \<noteq> -1" using lx' cid by simp
      from e3[OF x(1,2) lx this x(4)] have cl: "lab' y \<noteq> -1 \<and> lab' y \<noteq> -2" .
      then have y0: "0 \<le> lab' y" using a[OF y] by auto
      moreover have "lab' y = cid" if cy: "m \<le> int (length (RQ y))"
      proof (rule ccontr)
        assume ne: "lab' y \<noteq> cid"
        then have "y \<notin> set (RQ i)" using e1[OF y] by auto
        from e2[OF y this] ne have "lab' y = lab y" by auto
        then have "0 \<le> lab y" using y0 by simp
        from J4[OF y cy this xy] lx show False by simp
      qed
      ultimately show ?thesis using lx' by simp
    qed
  qed
  show ?thesis
    unfolding cluster_inv_def label_below_def CDBSCAN_UNCLASSIFIED_def CDBSCAN_NOISE_def
    using a b c by blast
qed


subsection \<open>Density reachability\<close>

text \<open>
  The neighbour list that a run of \<open>cdbscan_cluster\<close> computes for point \<open>i\<close>: by the range
  query of the tree when the run has one, by \<open>cdbscan_region_query_custom\<close> otherwise. It
  depends on the coordinates only, so it is the same at every moment of the run.
\<close>

definition run_query ::
  "bool list \<Rightarrow> cdbscan_point list \<Rightarrow> int \<Rightarrow> cdbscan_params \<Rightarrow> nat \<Rightarrow> nat list" where
  "run_query heap pts n params i =
     region_of (run_tree heap (init_points pts n) n params)
       (run_params (run_tree heap (init_points pts n) n params) params) n
       (init_points pts n) i"

text \<open>
  In the words of the specification: a core point is a point whose neighbourhood
  (itself included) holds at least \<open>min_pts\<close> points, and \<open>q\<close> is density-reachable from \<open>p\<close>
  when a chain leads from \<open>p\<close> to \<open>q\<close> in which every point but the last is a core point
  and has the next point of the chain in its neighbourhood.
\<close>

definition is_core :: "bool list \<Rightarrow> cdbscan_point list \<Rightarrow> int \<Rightarrow> cdbscan_params \<Rightarrow> nat \<Rightarrow> bool" where
  "is_core heap pts n params i \<longleftrightarrow>
     min_pts params \<le> int (length (run_query heap pts n params i))"

fun core_chain :: "(nat \<Rightarrow> nat list) \<Rightarrow> int \<Rightarrow> nat list \<Rightarrow> bool" where
  "core_chain RQ m [] = False"
| "core_chain RQ m [x] = True"
| "core_chain RQ m (x # y # rest) =
     (m \<le> int (length (RQ x)) \<and> y \<in> set (RQ x) \<and> core_chain RQ m (y # rest))"

definition density_chain ::
  "bool list \<Rightarrow> cdbscan_point list \<Rightarrow> int \<Rightarrow> cdbscan_params \<Rightarrow> nat list \<Rightarrow> bool" where
  "density_chain heap pts n params chain =
     core_chain (run_query heap pts n params) (min_pts params) chain"

lemma core_chain_labels:
  assumes inv: "cluster_inv RQ m n c lab" and rng: "\<forall>x<n. set (RQ x) \<subseteq> {..<n}"
  shows "core_chain RQ m chain \<Longrightarrow> hd chain < n \<Longrightarrow> 0 \<le> lab (hd chain) \<Longrightarrow>
     last chain < n \<and> 0 \<le> lab (last chain)
     \<and> (m \<le> int (length (RQ (last chain))) \<longrightarrow> lab (last chain) = lab (hd chain))"
proof (induction chain)
  case Nil
  then show ?case by simp
next
  case (Cons x chain)
  from inv have J4: "\<And>x y. x < n \<Longrightarrow> m \<le> int (length (RQ x)) \<Longrightarrow> 0 \<le> lab x \<Longrightarrow> y \<in> set (RQ x) \<Longrightarrow>
               0 \<le> lab y \<and> (m \<le> int (length (RQ y)) \<longrightarrow> lab y = lab x)"
    unfolding cluster_inv_def by blast
  show ?case
  proof (cases chain)
    case Nil
    then show ?thesis using Cons.prems by simp
  next
    case (Cons y rest)
    with Cons.prems have x: "x < n" "0 \<le> lab x" "m \<le> int (length (RQ x))" "y \<in> set (RQ x)"
      and ch: "core_chain RQ m chain" by simp_all
    have y: "y < n" using rng x(1,4) by auto
    from J4[OF x(1,3,2,4)] have ly: "0 \<le> lab y" "m \<le> int (length (RQ y)) \<longrightarrow> lab y = lab x"
      by simp_all
    have hy: "hd chain = y" using Cons by simp
    from Cons.IH[OF ch] y ly(1) hy
    have ih: "last chain < n" "0 \<le> lab (last chain)"
      "m \<le> int (length (RQ (last chain))) \<longrightarrow> lab (last chain) = lab y"
      by simp_all
    have "lab (last chain) = lab x" if c: "m \<le> int (length (RQ (last chain)))"
    proof (cases rest)
      case Nil
      then show ?thesis using ly(2) c Cons by simp
    next
      case (Cons z zs)
      with ch \<open>chain = y # rest\<close> have "m \<le> int (length (RQ y))" by simp
      then show ?thesis using ly(2) ih(3) c by simp
    qed
    then show ?thesis using ih(1,2) Cons by simp
  qed
qed

lemma run_query_brute:
  assumes "cdbscan_validate_data (Some pts) n" "length pts = nat n"
    and "use_kdtree params = 0 \<or> dist_type params \<noteq> CDBSCAN_DIST_EUCLIDEAN" "i < nat n"
  shows "run_query heap pts n params i = cdbscan_region_query_custom (Some pts) n (int i) params"
  unfolding run_query_def
  by (rule run_region_eq[OF assms(1,2) _ assms(4)]) (use assms(3) in blast)

lemma cdbscan_cluster_inv:
  assumes vp: "cdbscan_validate_params params" and vd: "cdbscan_validate_data (Some pts) n"
    and len: "length pts = nat n"
    and bufs: "fst (alloc heap)" "fst (alloc (snd (alloc heap)))"
    and sym: "\<forall>x<nat n. \<forall>y\<in>set (run_query heap pts n params x).
                x \<in> set (run_query heap pts n params y)"
  shows "\<exists>c pts'. cdbscan_cluster heap (Some pts) n params = Some (c, Some pts')
     \<and> cluster_inv (run_query heap pts n params) (min_pts params) (nat n) c
          (\<lambda>j. cluster_id (pts' ! j))"
proof -
  let ?base = "init_points pts n"
  let ?tree = "run_tree heap ?base n params"
  let ?prm = "run_params ?tree params"
  let ?RQ = "run_query heap pts n params"
  let ?m = "min_pts params"
  let ?I = "\<lambda>(i::nat) cid ps. cluster_inv ?RQ ?m (nat n) cid (\<lambda>j. cluster_id (ps ! j))"
  note ip = init_points_nth[OF len]
  have lb: "length ?base = nat n" using ip(1) len by simp
  have vb: "cdbscan_validate_data (Some ?base) n"
    by (rule validate_data_geometry[OF vd ip(3) ip(4)])
  have Q: "region_ok (region_of ?tree ?prm n) ?base" by (rule run_region_ok[OF vb lb])
  have rq: "\<And>x. region_of ?tree ?prm n ?base x = ?RQ x" by (simp add: run_query_def)
  have mp: "min_pts ?prm = ?m" by (simp add: run_params_def)
  have rng: "\<forall>x<nat n. set (?RQ x) \<subseteq> {..<nat n}"
    using region_ok_query(3)[OF Q same_geometry_refl] lb rq by simp
  have "\<exists>c pts'. cdbscan_cluster heap (Some pts) n params = Some (c, Some pts')
           \<and> 0 \<le> c \<and> same_geometry ?base pts' \<and> ?I (nat n) c pts'"
  proof (rule cdbscan_cluster_rule[where I = ?I, OF vp vd len bufs refl refl], goal_cases)
    case 1
    have "cluster_inv ?RQ ?m (nat n) 0 (\<lambda>j. cluster_id (?base ! j))"
      unfolding cluster_inv_def using ip(2)
      by (auto simp: label_below_def CDBSCAN_UNCLASSIFIED_def CDBSCAN_NOISE_def)
    then show ?case .
  next
    case (2 i cid ps)
    then show ?case by simp
  next
    case (3 i cid ps)
    have lq: "i < length ps" using 3(2,3) lb by (simp add: same_geometry_def)
    have e: "(\<lambda>j. cluster_id (set_cluster_id ps i CDBSCAN_NOISE ! j))
             = (\<lambda>j. cluster_id (ps ! j))(i := CDBSCAN_NOISE)"
      using lq by (auto simp: cluster_id_set_cluster_id)
    have nc: "int (length (?RQ i)) < ?m" using 3(5) rq mp by simp
    show ?case unfolding e by (rule cluster_inv_noise[OF 3(1) 3(4) nc])
  next
    case (4 i cid ps ps' seeds')
    have cid: "cid \<noteq> CDBSCAN_UNCLASSIFIED" "cid \<noteq> CDBSCAN_NOISE"
      using 4(3) by (simp_all add: CDBSCAN_UNCLASSIFIED_def CDBSCAN_NOISE_def)
    have core: "\<not> int (length (region_of ?tree ?prm n ?base i)) < min_pts ?prm" by (rule 4(6))
    have E1: "\<forall>j<nat n. if j \<in> set (?RQ i) then cluster_id (ps' ! j) = cid
                   else cluster_id (ps' ! j) = cluster_id (ps ! j)
                        \<or> ((cluster_id (ps ! j) = CDBSCAN_UNCLASSIFIED
                             \<or> cluster_id (ps ! j) = CDBSCAN_NOISE) \<and> cluster_id (ps' ! j) = cid)"
      using 4(9) unfolding expanded_from_def rq by blast
    have E3: "\<forall>x<nat n. ?m \<le> int (length (?RQ x))
                    \<and> cluster_id (ps ! x) = CDBSCAN_UNCLASSIFIED
                    \<and> cluster_id (ps' ! x) \<noteq> CDBSCAN_UNCLASSIFIED \<longrightarrow>
               (\<forall>y\<in>set (?RQ x). cluster_id (ps' ! y) \<noteq> CDBSCAN_UNCLASSIFIED
                                  \<and> cluster_id (ps' ! y) \<noteq> CDBSCAN_NOISE)"
    proof (intro allI impI)
      fix x assume "x < nat n"
      assume x: "?m \<le> int (length (?RQ x))
                    \<and> cluster_id (ps ! x) = CDBSCAN_UNCLASSIFIED
                    \<and> cluster_id (ps' ! x) \<noteq> CDBSCAN_UNCLASSIFIED"
      then have x1: "min_pts ?prm \<le> int (length (region_of ?tree ?prm n ?base x))"
        using rq mp by simp
      from expand_cluster_with_closed[OF Q cid lb[symmetric] 4(2) core 4(7) x1] x
      have "closed_at (region_of ?tree ?prm n) ?base ps' x" by simp
      then show "\<forall>y\<in>set (?RQ x). cluster_id (ps' ! y) \<noteq> CDBSCAN_UNCLASSIFIED
                                  \<and> cluster_id (ps' ! y) \<noteq> CDBSCAN_NOISE"
        unfolding closed_at_def rq .
    qed
    show ?case
      by (rule cluster_inv_expand[OF 4(1) sym rng 4(4) 4(5) 4(3) E1 E3])
  qed
  then show ?thesis by blast
qed

text \<open>
  Claim C5, as amended. Let a run of \<open>cdbscan_cluster\<close> return a count \<open>\<ge> 0\<close>, and let the
  neighbourhoods that the run computes be symmetric (\<open>y\<close> is a neighbour of \<open>x\<close> exactly when
  \<open>x\<close> is one of \<open>y\<close>, as for the built-in metrics with the brute-force queries). If \<open>p\<close> ends
  in a cluster and \<open>q\<close> is density-reachable from \<open>p\<close>, then \<open>q\<close> ends in a cluster too, and
  when \<open>q\<close> is itself a core point it ends in the cluster of \<open>p\<close>. A point \<open>q\<close> that is no
  core point may end in another cluster (it can border two clusters). Without the index,
  or with another metric than the Euclidean, the neighbourhoods of the run are the lists of
  \<open>cdbscan_region_query_custom\<close>.
\<close>

theorem cdbscan_cluster_maximality:
  assumes len: "length pts = nat n"
    and sym: "\<forall>x<nat n. \<forall>y\<in>set (run_query heap pts n params x).
                x \<in> set (run_query heap pts n params y)"
    and run: "cdbscan_cluster heap (Some pts) n params = Some (cnt, Some pts')"
    and c0: "0 \<le> cnt"
    and chain: "density_chain heap pts n params chain" "hd chain = p" "last chain = q"
    and p: "p < nat n" "0 \<le> cluster_id (pts' ! p)"
  shows "0 \<le> cluster_id (pts' ! q) \<and> cluster_id (pts' ! q) < cnt
     \<and> (is_core heap pts n params q \<longrightarrow> cluster_id (pts' ! q) = cluster_id (pts' ! p))
     \<and> (use_kdtree params = 0 \<or> dist_type params \<noteq> CDBSCAN_DIST_EUCLIDEAN \<longrightarrow>
          (\<forall>i<nat n. run_query heap pts n params i
                       = cdbscan_region_query_custom (Some pts) n (int i) params))"
proof -
  let ?RQ = "run_query heap pts n params"
  have v: "cdbscan_validate_params params \<and> cdbscan_validate_data (Some pts) n"
  proof (rule ccontr)
    assume "\<not> ?thesis"
    then have "cdbscan_cluster heap (Some pts) n params = Some (-1, Some pts)"
      using cdbscan_cluster_invalid[of params "Some pts" n heap] by blast
    with run c0 show False by simp
  qed
  then have vp: "cdbscan_validate_params params" and vd: "cdbscan_validate_data (Some pts) n"
    by simp_all
  have bufs: "fst (alloc heap) \<and> fst (alloc (snd (alloc heap)))"
  proof (rule ccontr)
    assume "\<not> ?thesis"
    then have "cdbscan_cluster heap (Some pts) n params = Some (-1, Some (init_points pts n))"
      using cdbscan_cluster_outcome[OF vp vd len, of heap] by simp
    with run c0 show False by simp
  qed
  from cdbscan_cluster_inv[OF vp vd len conjunct1[OF bufs] conjunct2[OF bufs] sym] run
  have inv: "cluster_inv ?RQ (min_pts params) (nat n) cnt (\<lambda>j. cluster_id (pts' ! j))"
    by auto
  let ?base = "init_points pts n"
  note ip = init_points_nth[OF len]
  have lb: "length ?base = nat n" using ip(1) len by simp
  have vb: "cdbscan_validate_data (Some ?base) n"
    by (rule validate_data_geometry[OF vd ip(3) ip(4)])
  have rng: "\<forall>x<nat n. set (?RQ x) \<subseteq> {..<nat n}"
    using region_ok_query(3)[OF run_region_ok[OF vb lb] same_geometry_refl, of heap params] lb
    by (simp add: run_query_def)
  have ch: "core_chain ?RQ (min_pts params) chain" using chain(1) by (simp add: density_chain_def)
  from core_chain_labels[OF inv rng ch] chain(2,3) p
  have r: "q < nat n" "0 \<le> cluster_id (pts' ! q)"
    "min_pts params \<le> int (length (?RQ q)) \<longrightarrow> cluster_id (pts' ! q) = cluster_id (pts' ! p)"
    by simp_all
  from inv r(1) have "label_below cnt (cluster_id (pts' ! q))"
    unfolding cluster_inv_def by blast
  with r(2) have lt: "cluster_id (pts' ! q) < cnt"
    by (auto simp: label_below_def CDBSCAN_UNCLASSIFIED_def CDBSCAN_NOISE_def)
  have br: "\<forall>i<nat n. ?RQ i = cdbscan_region_query_custom (Some pts) n (int i) params"
    if "use_kdtree params = 0 \<or> dist_type params \<noteq> CDBSCAN_DIST_EUCLIDEAN"
    using run_query_brute[OF vd len that] by simp
  show ?thesis using r(2,3) lt br by (simp add: is_core_def)
qed

text \<open>
  A metric on the points 0, 1, 2, 3 of the line under which a neighbourhood is not
  symmetric: besides itself, point 0 sees point 2, point 1 sees point 0 and point 2 sees
  point 3, and nothing else is within reach.
\<close>

definition one_way_metric :: cdbscan_dist_func where
  "one_way_metric a b d =
     (if a = b \<or> (a = Some [0] \<and> b = Some [2]) \<or> (a = Some [1] \<and> b = Some [0])
          \<or> (a = Some [2] \<and> b = Some [3])
      then 0 else 10)"

theorem cdbscan_cluster_maximality_counterexample:
  "cdbscan_cluster [] (Some (border_points [-1, -1, -1, -1, -1, -1, -1])) 7 (euclid_params 10 4 0)
     = Some (2, Some (border_points [0, 1, 0, 0, 1, 1, 1]))
   \<and> density_chain [] (border_points [-1, -1, -1, -1, -1, -1, -1]) 7 (euclid_params 10 4 0) [0, 1]
   \<and> cluster_id (border_points [0, 1, 0, 0, 1, 1, 1] ! 0) = 0
   \<and> cluster_id (border_points [0, 1, 0, 0, 1, 1, 1] ! 1) = 1
   \<and> cdbscan_cluster [] (Some [pt 0, pt 1, pt 2, pt 3]) 4 (custom_params 1 2 one_way_metric)
     = Some (2, Some [lpt 0 1 0, lpt 1 1 1, lpt 2 0 2, lpt 3 0 3])
   \<and> density_chain [] [pt 0, pt 1, pt 2, pt 3] 4 (custom_params 1 2 one_way_metric) [0, 2]
   \<and> is_core [] [pt 0, pt 1, pt 2, pt 3] 4 (custom_params 1 2 one_way_metric) 2
   \<and> cluster_id ([lpt 0 1 0, lpt 1 1 1, lpt 2 0 2, lpt 3 0 3] ! 0) = 1
   \<and> cluster_id ([lpt 0 1 0, lpt 1 1 1, lpt 2 0 2, lpt 3 0 3] ! 2) = 0"
  by (simp add: density_chain_def is_core_def run_query_def region_of_def run_tree_def
        run_params_def run_eval border_points_def one_way_metric_def)

theorem cdbscan_cluster_maximality_witness:
  "cdbscan_cluster [] (Some two_points) 4 (euclid_params 2 2 0)
     = Some (1, Some [lpt 0 (-2) 0, lpt 3 0 1, lpt 4 0 2, lpt 20 (-2) 3])
   \<and> density_chain [] two_points 4 (euclid_params 2 2 0) [1, 2]
   \<and> is_core [] two_points 4 (euclid_params 2 2 0) 2
   \<and> cluster_id ([lpt 0 (-2) 0, lpt 3 0 1, lpt 4 0 2, lpt 20 (-2) 3] ! 2)
       = cluster_id ([lpt 0 (-2) 0, lpt 3 0 1, lpt 4 0 2, lpt 20 (-2) 3] ! 1)"
proof -
  let ?prm = "euclid_params 2 2 0"
  let ?fin = "[lpt 0 (-2) 0, lpt 3 0 1, lpt 4 0 2, lpt 20 (-2) 3]"
  have run: "cdbscan_cluster [] (Some two_points) 4 ?prm = Some (1, Some ?fin)"
    by (simp add: run_eval two_points_def)
  have len: "length two_points = nat 4" by (simp add: two_points_def)
  have q: "run_query [] two_points 4 ?prm 0 = [0]" "run_query [] two_points 4 ?prm 1 = [1, 2]"
    "run_query [] two_points 4 ?prm 2 = [1, 2]" "run_query [] two_points 4 ?prm 3 = [3]"
    by (simp_all add: run_query_def region_of_def run_tree_def run_params_def run_eval
          two_points_def)
  have q1: "run_query [] two_points 4 ?prm (Suc 0) = [1, 2]" using q(2) by simp
  have sym: "\<forall>x<nat 4. \<forall>y\<in>set (run_query [] two_points 4 ?prm x).
                x \<in> set (run_query [] two_points 4 ?prm y)"
  proof (intro allI impI)
    fix x :: nat assume "x < nat 4"
    then consider "x = 0" | "x = 1" | "x = 2" | "x = 3" by force
    then show "\<forall>y\<in>set (run_query [] two_points 4 ?prm x).
                x \<in> set (run_query [] two_points 4 ?prm y)"
      by cases (simp_all add: q q1)
  qed
  have m: "min_pts ?prm = 2" by (simp add: euclid_params_def)
  have ch: "density_chain [] two_points 4 ?prm [1, 2]"
    by (simp add: density_chain_def q q1 m)
  have core: "is_core [] two_points 4 ?prm 2"
    by (simp add: is_core_def q m)
  have c0: "(0::int) \<le> 1" by simp
  have p: "(1::nat) < nat 4" "0 \<le> cluster_id (?fin ! 1)" by (simp_all add: lpt_def)
  from cdbscan_cluster_maximality[OF len sym run c0 ch _ _ p, of 2] core
  have "cluster_id (?fin ! 2) = cluster_id (?fin ! 1)" by simp
  with run ch core show ?thesis by blast
qed

end
